theory Spec2Isabelle
  imports Main "HOL-Library.Char_ord" "HOL-Library.List_Lexorder" "HOL-Library.Product_Lexorder"
    "HOL-Library.AList"
begin

section \<open>Python strings\<close>

text \<open>
  A Python \<open>str\<close> is modelled as a \<^typ>\<open>string\<close>: a list of characters, each character
  standing for the code point of the same number (0 to 255). The predicates below are
  Python's, restricted to that range.
\<close>

definition LF :: char where
  "LF = CHR 0x0A"

definition CR :: char where
  "CR = CHR 0x0D"

text \<open>
  The line boundaries of \<open>str.splitlines\<close>: \<open>\n\<close>, \<open>\v\<close>, \<open>\f\<close>, \<open>\r\<close>, the file, group
  and record separators and NEL.
\<close>

definition is_linebreak :: "char \<Rightarrow> bool" where
  "is_linebreak c \<longleftrightarrow> c \<in> set [CHR 0x0A, CHR 0x0B, CHR 0x0C, CHR 0x0D, CHR 0x1C, CHR 0x1D, CHR 0x1E, CHR 0x85]"

text \<open>
  The whitespace of \<open>str.strip()\<close>, \<open>str.lstrip()\<close> and \<open>str.isspace()\<close>: tab to carriage
  return, the four separators, the space, NEL and the no-break space.
\<close>

definition is_space :: "char \<Rightarrow> bool" where
  "is_space c \<longleftrightarrow> c \<in> set [CHR 0x09, CHR 0x0A, CHR 0x0B, CHR 0x0C, CHR 0x0D, CHR 0x1C, CHR 0x1D, CHR 0x1E,
     CHR 0x1F, CHR 0x20, CHR 0x85, CHR 0xA0]"

definition lstrip :: "string \<Rightarrow> string" where
  "lstrip s = dropWhile is_space s"

definition rstrip :: "string \<Rightarrow> string" where
  "rstrip s = rev (dropWhile is_space (rev s))"

definition strip :: "string \<Rightarrow> string" where
  "strip s = rstrip (lstrip s)"

definition startswith :: "string \<Rightarrow> string \<Rightarrow> bool" where
  "startswith s p \<longleftrightarrow> take (length p) s = p"

definition endswith :: "string \<Rightarrow> string \<Rightarrow> bool" where
  "endswith s p \<longleftrightarrow> length p \<le> length s \<and> drop (length s - length p) s = p"

text \<open>\<open>sep.join(xs)\<close>.\<close>

fun join :: "string \<Rightarrow> string list \<Rightarrow> string" where
  "join sep [] = []"
| "join sep [x] = x"
| "join sep (x # y # ys) = x @ sep @ join sep (y # ys)"

text \<open>
  \<open>s.split(sep)\<close> for a one-character separator: the pieces between the separators, so
  that the empty string gives one empty piece. \<open>cur\<close> is the piece being read.
\<close>

fun split_from :: "char \<Rightarrow> string \<Rightarrow> string \<Rightarrow> string list" where
  "split_from sep cur [] = [cur]"
| "split_from sep cur (c # cs) =
     (if c = sep then cur # split_from sep [] cs else split_from sep (cur @ [c]) cs)"

definition split :: "char \<Rightarrow> string \<Rightarrow> string list" where
  "split sep s = split_from sep [] s"

text \<open>
  \<open>s.split(sep, 1)\<close>: at most one cut, at the first separator. The result has one piece
  when the separator is absent, two otherwise.
\<close>

definition split1 :: "char \<Rightarrow> string \<Rightarrow> string list" where
  "split1 sep s =
     (if sep \<in> set s then [takeWhile (\<lambda>c. c \<noteq> sep) s, tl (dropWhile (\<lambda>c. c \<noteq> sep) s)]
      else [s])"

text \<open>\<open>s.replace(a, b)\<close> for one-character strings.\<close>

definition replace :: "char \<Rightarrow> char \<Rightarrow> string \<Rightarrow> string" where
  "replace a b s = map (\<lambda>c. if c = a then b else c) s"

text \<open>
  \<open>s.splitlines()\<close>: a line ends at a line boundary, \<open>\r\n\<close> counting as one; the boundary
  is not kept; what follows the last boundary is a line only when it is not empty.
  \<open>cur\<close> is the line being read.
\<close>

fun splitlines_from :: "string \<Rightarrow> string \<Rightarrow> string list" where
  "splitlines_from cur [] = (if cur = [] then [] else [cur])"
| "splitlines_from cur (c # cs) =
     (if is_linebreak c then
        (case cs of
           d # ds \<Rightarrow>
             if c = CR \<and> d = LF then cur # splitlines_from [] ds
             else cur # splitlines_from [] cs
         | [] \<Rightarrow> cur # splitlines_from [] cs)
      else splitlines_from (cur @ [c]) cs)"

definition splitlines :: "string \<Rightarrow> string list" where
  "splitlines s = splitlines_from [] s"

text \<open>
  \<open>str(n)\<close> and the \<open>{n}\<close> of an f-string for a non-negative integer: its decimal digits.
\<close>

definition digit_char :: "nat \<Rightarrow> char" where
  "digit_char d = ''0123456789'' ! d"

fun str_nat :: "nat \<Rightarrow> string" where
  "str_nat n = (if n < 10 then [digit_char n] else str_nat (n div 10) @ [digit_char (n mod 10)])"

text \<open>
  \<open>s.isdigit()\<close>: the string is not empty and every character is a digit. Besides \<open>0\<close> to
  \<open>9\<close> the superscripts two, three and one are digits for \<open>isdigit\<close>.
\<close>

definition is_decimal :: "char \<Rightarrow> bool" where
  "is_decimal c \<longleftrightarrow> c \<in> set ''0123456789''"

definition isdigit :: "string \<Rightarrow> bool" where
  "isdigit s \<longleftrightarrow> s \<noteq> [] \<and> (\<forall>c\<in>set s. is_decimal c \<or> c \<in> set [CHR 0xB2, CHR 0xB3, CHR 0xB9])"

text \<open>
  \<open>int(s)\<close> on a string that passed \<open>isdigit\<close>: the number in base ten, or \<open>None\<close> for the
  \<open>ValueError\<close> that \<open>int\<close> raises on a superscript digit.
\<close>

definition digit_value :: "char \<Rightarrow> nat" where
  "digit_value c = of_char c - 48"

definition int_of_digits :: "string \<Rightarrow> nat option" where
  "int_of_digits s =
     (if s \<noteq> [] \<and> (\<forall>c\<in>set s. is_decimal c) then Some (foldl (\<lambda>n c. 10 * n + digit_value c) 0 s)
      else None)"

section \<open>Errors and data\<close>

text \<open>
  A path is the list of its components, a \<open>pathlib.Path\<close>.
\<close>

type_synonym path = "string list"

text \<open>
  Every \<open>raise\<close> of the source is one constructor. The names are those of the specification's
  taxonomy where it has one; the Python exception is given beside each.
  \<open>PyError\<close> stands for an exception raised inside a library call (\<open>json.loads\<close>, a
  dictionary lookup, a file operation), named by its Python class.
\<close>

datatype error =
    TextModeOnly                                   \<comment> \<open>\<open>ValueError\<close> of \<open>run_logged\<close>\<close>
  | RequiredBinaryNotFound string                  \<comment> \<open>\<open>RuntimeError\<close> of \<open>ensure\<close>\<close>
  | ProcessFailed "string list" int "string option" "string option"
                                                   \<comment> \<open>\<open>CalledProcessError\<close>: command, exit code, output, stderr\<close>
  | MissingVariableTemplate                        \<comment> \<open>\<open>FileNotFoundError\<close> of \<open>ensure_tfvars\<close>\<close>
  | MissingStackOutput string                      \<comment> \<open>\<open>KeyError\<close> of \<open>bootstrap_state_from_outputs\<close>\<close>
  | UpstreamNotBootstrapped path                   \<comment> \<open>\<open>FileNotFoundError\<close> of \<open>load_bootstrap_state\<close>\<close>
  | RegistryEndpointRequired                       \<comment> \<open>\<open>RuntimeError\<close> of \<open>_registry_login_server\<close>\<close>
  | MissingBuildTemplate path                      \<comment> \<open>\<open>FileNotFoundError\<close> of \<open>build_and_push\<close>, \<open>acr-build.yaml\<close>\<close>
  | MissingIncludePath path                        \<comment> \<open>\<open>FileNotFoundError\<close> of \<open>build_and_push\<close>, an include path\<close>
  | MissingBuildContext path                       \<comment> \<open>\<open>FileNotFoundError\<close> of \<open>_staged_context\<close>\<close>
  | TokenNameCollision string                      \<comment> \<open>\<open>ValueError\<close>: token name already exists\<close>
  | InvalidTokenComponent string                   \<comment> \<open>\<open>ValueError\<close> of \<open>_validate_component\<close>, with its label\<close>
  | TokenEntryWithoutSeparator                     \<comment> \<open>\<open>ValueError\<close>: use name:token or name=token\<close>
  | EmptyTokenComponent                            \<comment> \<open>\<open>ValueError\<close>: name and value must be non-empty\<close>
  | PyError string

type_synonym 'a result = "error + 'a"

text \<open>A decoded JSON document (\<open>json.loads\<close>) or HCL value (\<open>hcl2.load\<close>).\<close>

datatype json =
    JNull
  | JBool bool
  | JNum int
  | JStr string
  | JArr "json list"
  | JObj "(string \<times> json) list"

section \<open>Config Patcher\<close>

text \<open>
  The test of the loop body of \<open>_set_tfvar_value\<close>: the line is not skipped (not blank, not
  a comment, has an assignment operator) and its left-hand side is the key.
\<close>

definition assigns :: "string \<Rightarrow> string \<Rightarrow> bool" where
  "assigns key line =
     (let stripped = strip line in
      if stripped = [] \<or> startswith stripped ''#'' \<or> CHR ''='' \<notin> set stripped then False
      else strip (hd (split1 CHR ''='' stripped)) = key)"

text \<open>\<open>line[: len(line) - len(line.lstrip())]\<close>\<close>

definition indent_of :: "string \<Rightarrow> string" where
  "indent_of line = take (length line - length (lstrip line)) line"

text \<open>
  The \<open>for\<close> loop with its \<open>break\<close>: the lines with the first line that assigns the key
  replaced, or \<open>None\<close> when the loop ends without a \<open>break\<close> (the \<open>else\<close> branch is then
  taken by the caller).
\<close>

fun replace_first :: "string \<Rightarrow> string \<Rightarrow> string list \<Rightarrow> string list option" where
  "replace_first key new_line [] = None"
| "replace_first key new_line (line # rest) =
     (if assigns key line then Some ((indent_of line @ new_line) # rest)
      else map_option ((#) line) (replace_first key new_line rest))"

definition assignment_line :: "string \<Rightarrow> string \<Rightarrow> string" where
  "assignment_line key val = key @ '' = '' @ [CHR 0x22] @ val @ [CHR 0x22]"

definition set_tfvar_value :: "string \<Rightarrow> string \<Rightarrow> string \<Rightarrow> string" where
  "set_tfvar_value content key val =
     (let lines = splitlines content;
          new_line = assignment_line key val;
          lines' = (case replace_first key new_line lines of
                      Some ls \<Rightarrow> ls
                    | None \<Rightarrow> lines @ [new_line]);
          updated = join [LF] lines'
      in if \<not> endswith updated [LF] then updated @ [LF] else updated)"

subsection \<open>Notions used in the statements about the Config Patcher\<close>

text \<open>
  \<open>render\<close> is the end of \<open>_set_tfvar_value\<close>: the lines joined, and a newline added when
  the joined text does not end with one. \<open>unlines\<close> ends every line with a newline.
  \<open>trailing_newlines\<close> counts the newlines at the end of a text, \<open>trailing_empty\<close> the
  empty lines at the end of a list of lines, \<open>chop\<close> removes one empty line from the
  end, and \<open>without_trailing_empty n\<close> removes the empty lines at the end, but at most \<open>n\<close> of
  them. A key is well formed when it is not empty, has no whitespace around it, does not
  start a comment and has neither an assignment operator nor a line boundary in it.
\<close>

definition unlines :: "string list \<Rightarrow> string" where
  "unlines ls = concat (map (\<lambda>l. l @ [LF]) ls)"

definition trailing_newlines :: "string \<Rightarrow> nat" where
  "trailing_newlines s = length (takeWhile (\<lambda>c. c = LF) (rev s))"

definition trailing_empty :: "string list \<Rightarrow> nat" where
  "trailing_empty ls = length (takeWhile (\<lambda>l. l = []) (rev ls))"

definition render :: "string list \<Rightarrow> string" where
  "render ls = (let updated = join [LF] ls in if \<not> endswith updated [LF] then updated @ [LF] else updated)"

definition no_linebreak :: "string \<Rightarrow> bool" where
  "no_linebreak s \<longleftrightarrow> (\<forall>c\<in>set s. \<not> is_linebreak c)"

definition well_formed_key :: "string \<Rightarrow> bool" where
  "well_formed_key k \<longleftrightarrow>
     k \<noteq> [] \<and> \<not> is_space (hd k) \<and> \<not> is_space (last k) \<and> hd k \<noteq> CHR ''#'' \<and>
     CHR ''='' \<notin> set k \<and> no_linebreak k"

definition chop :: "string list \<Rightarrow> string list" where
  "chop ls = (if ls \<noteq> [] \<and> last ls = [] then butlast ls else ls)"

definition without_trailing_empty :: "nat \<Rightarrow> string list \<Rightarrow> string list" where
  "without_trailing_empty n ls = take (length ls - min n (trailing_empty ls)) ls"


section \<open>Token Registry\<close>

text \<open>
  A \<open>Dict[str, str]\<close> is an association list in insertion order with distinct keys:
  \<open>d[k] = v\<close> is \<^const>\<open>AList.update\<close> (the value is replaced in place, a new key goes to the
  end), \<open>d.pop(k, None)\<close> is \<^const>\<open>AList.delete\<close> and \<open>k in d\<close> is membership in the keys.
\<close>

type_synonym tokens = "(string \<times> string) list"

definition has_key :: "tokens \<Rightarrow> string \<Rightarrow> bool" where
  "has_key d k \<longleftrightarrow> k \<in> set (map fst d)"

subsection \<open>\<open>_load_tokens\<close>: parsing the secret text\<close>

text \<open>
  The loop over the entries, with the counter of the placeholder names. An entry with a
  colon whose name or value is empty is skipped.
\<close>

fun load_entries :: "string list \<Rightarrow> nat \<Rightarrow> tokens \<Rightarrow> tokens" where
  "load_entries [] legacy_counter toks = toks"
| "load_entries (entry # entries) legacy_counter toks =
     (let entry = strip entry in
      if entry = [] then load_entries entries legacy_counter toks
      else if CHR '':'' \<in> set entry then
        (let parts = split1 CHR '':'' entry;
             name = strip (parts ! 0);
             val = strip (parts ! 1)
         in if name \<noteq> [] \<and> val \<noteq> [] then
              load_entries entries legacy_counter (AList.update name val toks)
            else load_entries entries legacy_counter toks)
      else
        load_entries entries (legacy_counter + 1)
          (AList.update (''legacy-'' @ str_nat legacy_counter) entry toks))"

text \<open>
  \<open>_load_tokens\<close> from the text that the secret store returned: \<open>None\<close> when the read
  raised (any exception gives the empty set), the standard output of the command otherwise.
\<close>

definition parse_tokens :: "string option \<Rightarrow> tokens" where
  "parse_tokens shown =
     (case shown of
        None \<Rightarrow> []
      | Some out \<Rightarrow>
          (let output = strip out in
           if output = [] then []
           else
             (let entries = split CHR '';'' (replace CHR '','' CHR '';'' (replace LF CHR '';'' output))
              in load_entries entries 1 [])))"

subsection \<open>\<open>_save_tokens\<close>: the secret text\<close>

text \<open>
  \<open>";".join(f"{name}:{value}" for name, value in sorted(tokens.items()))\<close>: the items are
  sorted as pairs, strings by code points.
\<close>

definition entry_text :: "string \<times> string \<Rightarrow> string" where
  "entry_text item = fst item @ '':'' @ snd item"

definition serialize_tokens :: "tokens \<Rightarrow> string" where
  "serialize_tokens toks = join '';'' (map entry_text (sort toks))"

subsection \<open>\<open>manage_tokens\<close>: generate, add, remove\<close>

definition validate_component :: "string \<Rightarrow> string \<Rightarrow> unit result" where
  "validate_component label component =
     (if CHR '':'' \<in> set component \<or> CHR '';'' \<in> set component then Inl (InvalidTokenComponent label)
      else Inr ())"

definition parse_name_value :: "string \<Rightarrow> (string \<times> string) result" where
  "parse_name_value raw =
     (if CHR '':'' \<notin> set raw \<and> CHR ''='' \<notin> set raw then Inl TokenEntryWithoutSeparator
      else
        (let parts = (if CHR '':'' \<in> set raw then split1 CHR '':'' raw else split1 CHR ''='' raw);
             name = strip (parts ! 0);
             val = strip (parts ! 1)
         in if name = [] \<or> val = [] then Inl EmptyTokenComponent
            else
              (case validate_component ''name'' name of
                 Inl e \<Rightarrow> Inl e
               | Inr _ \<Rightarrow>
                   (case validate_component ''value'' val of
                      Inl e \<Rightarrow> Inl e
                    | Inr _ \<Rightarrow> Inr (name, val)))))"

text \<open>
  The state of the three loops: the token set, the dictionary of the generated tokens, and
  the number of random tokens drawn so far. \<open>_generate_token()\<close> draws from the system's
  random source; the model takes the sequence of its results as the parameter \<open>rng\<close>, the
  \<open>n\<close>-th call returning \<open>rng n\<close>.
\<close>

record registry =
  tokens :: tokens
  generated :: tokens
  drawn :: nat

definition gen_name :: "nat \<Rightarrow> string" where
  "gen_name suffix = ''generated-'' @ str_nat suffix"

definition store_generated :: "(nat \<Rightarrow> string) \<Rightarrow> string \<Rightarrow> registry \<Rightarrow> registry" where
  "store_generated rng name st =
     (let token = rng (drawn st)
      in st\<lparr>tokens := AList.update name token (tokens st),
            generated := AList.update name token (generated st),
            drawn := drawn st + 1\<rparr>)"

text \<open>
  The inner \<open>while name in tokens: suffix += 1\<close>: the first suffix from \<open>suffix\<close> on whose
  name is not a key. It ends because the names of different suffixes differ and the
  dictionary is finite.
\<close>

function next_free :: "tokens \<Rightarrow> nat \<Rightarrow> nat" where
  "next_free toks suffix =
     (if has_key toks (gen_name suffix) then next_free toks (suffix + 1) else suffix)"
  by pat_completeness auto
termination
proof (relation "measure (\<lambda>(toks, suffix). card {k. suffix \<le> k \<and> has_key toks (gen_name k)})")
  show "wf (measure (\<lambda>(toks, suffix). card {k. suffix \<le> k \<and> has_key toks (gen_name k)}))"
    by simp
next
  fix toks :: tokens and suffix :: nat
  assume used: "has_key toks (gen_name suffix)"
  let ?dec = "foldl (\<lambda>n c. 10 * n + digit_value c) (0::nat)"
  have digit: "digit_value (digit_char d) = d" if "d < 10" for d
  proof -
    from that have "d \<in> set [0, 1, 2, 3, 4, 5, 6, 7, 8, 9]" by auto
    then show ?thesis by (auto simp: digit_value_def digit_char_def)
  qed
  have decode: "?dec (str_nat n) = n" for n
  proof (induction n rule: str_nat.induct)
    case (1 n)
    show ?case
    proof (cases "n < 10")
      case True
      then show ?thesis by (simp add: digit)
    next
      case False
      have "?dec (str_nat n) = 10 * ?dec (str_nat (n div 10)) + digit_value (digit_char (n mod 10))"
        using False by (subst str_nat.simps) simp
      then show ?thesis using 1 False by (simp add: digit)
    qed
  qed
  have "inj str_nat" by (rule inj_on_inverseI[where g = ?dec]) (rule decode)
  then have "inj gen_name" by (auto simp: inj_def gen_name_def)
  then have "finite (gen_name -` set (map fst toks))" by (intro finite_vimageI) simp_all
  then have fin: "finite {k. suffix \<le> k \<and> has_key toks (gen_name k)}"
    by (rule rev_finite_subset) (auto simp: has_key_def)
  have "suffix \<in> {k. suffix \<le> k \<and> has_key toks (gen_name k)}"
    "suffix \<notin> {k. suffix + 1 \<le> k \<and> has_key toks (gen_name k)}"
    using used by simp_all
  moreover have "{k. suffix + 1 \<le> k \<and> has_key toks (gen_name k)} \<subseteq> {k. suffix \<le> k \<and> has_key toks (gen_name k)}"
    by auto
  ultimately have "{k. suffix + 1 \<le> k \<and> has_key toks (gen_name k)} \<subset> {k. suffix \<le> k \<and> has_key toks (gen_name k)}"
    by blast
  then have "card {k. suffix + 1 \<le> k \<and> has_key toks (gen_name k)} < card {k. suffix \<le> k \<and> has_key toks (gen_name k)}"
    using fin by (intro psubset_card_mono)
  then show "((toks, suffix + 1), (toks, suffix)) \<in> measure (\<lambda>(toks, suffix). card {k. suffix \<le> k \<and> has_key toks (gen_name k)})"
    by simp
qed

declare next_free.simps [simp del]
declare str_nat.simps [simp del]

text \<open>
  \<open>for idx in range(count)\<close>: the search starts at \<open>idx + 1\<close> in the token set as it is by
  then, the names generated before included.
\<close>

definition generate_numbered :: "(nat \<Rightarrow> string) \<Rightarrow> nat \<Rightarrow> registry \<Rightarrow> registry" where
  "generate_numbered rng count st =
     fold (\<lambda>idx st. store_generated rng (gen_name (next_free (tokens st) (idx + 1))) st) [0..<count] st"

text \<open>
  \<open>for item in generate\<close>. \<open>int(item)\<close> raises \<open>ValueError\<close> on an item that \<open>isdigit\<close>
  accepts and \<open>int\<close> does not.
\<close>

fun generate_items :: "(nat \<Rightarrow> string) \<Rightarrow> string list \<Rightarrow> registry \<Rightarrow> registry result" where
  "generate_items rng [] st = Inr st"
| "generate_items rng (item # items) st =
     (if isdigit item then
        (case int_of_digits item of
           None \<Rightarrow> Inl (PyError ''ValueError'')
         | Some count \<Rightarrow> generate_items rng items (generate_numbered rng count st))
      else
        (let name = strip item in
         if name = [] then generate_items rng items st
         else
           (case validate_component ''name'' name of
              Inl e \<Rightarrow> Inl e
            | Inr _ \<Rightarrow>
                if has_key (tokens st) name then Inl (TokenNameCollision name)
                else generate_items rng items (store_generated rng name st))))"

text \<open>\<open>for token in add\<close> and \<open>for token in remove\<close>.\<close>

fun add_items :: "string list \<Rightarrow> tokens \<Rightarrow> tokens result" where
  "add_items [] toks = Inr toks"
| "add_items (token # rest) toks =
     (case parse_name_value token of
        Inl e \<Rightarrow> Inl e
      | Inr (name, val) \<Rightarrow> add_items rest (AList.update name val toks))"

definition remove_items :: "string list \<Rightarrow> tokens \<Rightarrow> tokens" where
  "remove_items remove toks = fold AList.delete remove toks"

text \<open>
  The three loops of \<open>manage_tokens\<close> on the loaded token set: the token set and the
  dictionary of the generated tokens as they are before the listing or the save.
\<close>

definition update_tokens ::
  "(nat \<Rightarrow> string) \<Rightarrow> tokens \<Rightarrow> string list \<Rightarrow> string list \<Rightarrow> string list \<Rightarrow> registry result" where
  "update_tokens rng loaded add remove generate =
     (case generate_items rng generate \<lparr>tokens = loaded, generated = [], drawn = 0\<rparr> of
        Inl e \<Rightarrow> Inl e
      | Inr st \<Rightarrow>
          (case add_items add (tokens st) of
             Inl e \<Rightarrow> Inl e
           | Inr added \<Rightarrow> Inr (st\<lparr>tokens := remove_items remove added\<rparr>)))"

subsection \<open>Notions used in the statements about the Token Registry\<close>

text \<open>
  The names of a token set are not empty and hold neither the field delimiter nor the
  entry delimiter: what \<open>_load_tokens\<close>, \<open>_parse_name_value\<close> and the \<open>generate\<close> loop let in.
\<close>

definition valid_names :: "tokens \<Rightarrow> bool" where
  "valid_names toks \<longleftrightarrow> (\<forall>n\<in>set (map fst toks). n \<noteq> [] \<and> CHR '':'' \<notin> set n \<and> CHR '';'' \<notin> set n)"

text \<open>
  \<open>smallest_unused toks ks\<close>: the suffixes \<open>ks\<close>, in increasing order, are at least 1, name
  no key of \<open>toks\<close>, and every other such suffix is greater than all of them. So \<open>ks\<close> are
  the \<open>length ks\<close> smallest suffixes whose name \<open>generated-<k>\<close> is unused.
\<close>

definition smallest_unused :: "tokens \<Rightarrow> nat list \<Rightarrow> bool" where
  "smallest_unused toks ks \<longleftrightarrow>
     sorted_wrt (<) ks \<and> (\<forall>k\<in>set ks. 1 \<le> k \<and> \<not> has_key toks (gen_name k)) \<and>
     (\<forall>j. 1 \<le> j \<and> \<not> has_key toks (gen_name j) \<and> j \<notin> set ks \<longrightarrow> (\<forall>k\<in>set ks. k < j))"



section \<open>The world: files, environment, external tools\<close>

text \<open>
  What the program does to its surroundings is recorded in a trace, in program order:
  a log record (\<open>logging.info\<close>), the start and the end of a child process, a text that
  reached one of the two standard streams (written by a child that inherited them, forwarded
  or replayed by \<open>run_logged\<close>, or printed), and the writing of a file.
\<close>

datatype stream = Stdout | Stderr

datatype event =
    Log string
  | Exec "string list" "path option"
  | Exited int
  | Emit stream string
  | WriteText path string

record world =
  files :: "path \<Rightarrow> string option"    \<comment> \<open>the regular files and their text\<close>
  dirs :: "path \<Rightarrow> bool"               \<comment> \<open>the directories\<close>
  environ :: "string \<Rightarrow> string option" \<comment> \<open>\<open>os.environ\<close>\<close>
  trace :: "event list"

text \<open>
  A child process, as the program sees it: its exit code, the lines it wrote to its two
  streams in the order in which they were received, and the files it left.
\<close>

record proc =
  exit_code :: int
  lines_out :: "(stream \<times> string) list"
  files_after :: "path \<Rightarrow> string option"
  dirs_after :: "path \<Rightarrow> bool"

text \<open>
  The external collaborators are parameters of the model: which binaries are on the
  \<open>PATH\<close> (\<open>shutil.which\<close>), how a command behaves in a given world, the JSON and HCL
  parsers (\<open>None\<close> when they raise), \<open>str()\<close> of a decoded value that is not a string, the
  clock as a \<open>%Y%m%d%H%M%S\<close> stamp, the name of a fresh temporary directory for a prefix, and
  the root of the repository.
\<close>

record ext =
  which :: "string \<Rightarrow> bool"
  spawn :: "string list \<Rightarrow> path option \<Rightarrow> world \<Rightarrow> proc"
  json_loads :: "string \<Rightarrow> json option"
  hcl2_load :: "string \<Rightarrow> (string \<times> json) list option"
  py_repr :: "json \<Rightarrow> string"
  clock :: "world \<Rightarrow> string"
  mkdtemp :: "string \<Rightarrow> world \<Rightarrow> path"
  repo_root :: path

type_synonym 'a action = "world \<Rightarrow> 'a result \<times> world"

definition and_then :: "'a action \<Rightarrow> ('a \<Rightarrow> 'b action) \<Rightarrow> 'b action" where
  "and_then m f w = (case m w of (Inl e, w') \<Rightarrow> (Inl e, w') | (Inr x, w') \<Rightarrow> f x w')"

definition ok :: "'a \<Rightarrow> 'a action" where
  "ok x w = (Inr x, w)"

definition fail :: "error \<Rightarrow> 'a action" where
  "fail e w = (Inl e, w)"

definition record_events :: "event list \<Rightarrow> unit action" where
  "record_events evs w = (Inr (), w\<lparr>trace := trace w @ evs\<rparr>)"

definition log_info :: "string \<Rightarrow> unit action" where
  "log_info msg = record_events [Log msg]"

text \<open>\<open>print(s)\<close>\<close>

definition print_line :: "string \<Rightarrow> unit action" where
  "print_line s = record_events [Emit Stdout (s @ [LF])]"

subsection \<open>Truth values and strings of Python\<close>

text \<open>
  \<open>a or b\<close> on optional strings: \<open>None\<close> and the empty string are false. \<open>str(v)\<close> of a
  decoded value is the string itself for a string.
\<close>

definition truthy_str :: "string option \<Rightarrow> bool" where
  "truthy_str a \<longleftrightarrow> (case a of None \<Rightarrow> False | Some s \<Rightarrow> s \<noteq> [])"

definition py_or :: "string option \<Rightarrow> string option \<Rightarrow> string option" where
  "py_or a b = (if truthy_str a then a else b)"

definition truthy :: "json \<Rightarrow> bool" where
  "truthy v \<longleftrightarrow>
     (case v of JNull \<Rightarrow> False | JBool b \<Rightarrow> b | JNum n \<Rightarrow> n \<noteq> 0 | JStr s \<Rightarrow> s \<noteq> []
      | JArr xs \<Rightarrow> xs \<noteq> [] | JObj kvs \<Rightarrow> kvs \<noteq> [])"

definition py_str :: "ext \<Rightarrow> json \<Rightarrow> string" where
  "py_str x v = (case v of JStr s \<Rightarrow> s | _ \<Rightarrow> py_repr x v)"

text \<open>\<open>data[key]\<close> on a decoded JSON value.\<close>

definition subscript :: "json \<Rightarrow> string \<Rightarrow> json result" where
  "subscript data key =
     (case data of
        JObj kvs \<Rightarrow> (case map_of kvs key of None \<Rightarrow> Inl (PyError ''KeyError'') | Some v \<Rightarrow> Inr v)
      | _ \<Rightarrow> Inl (PyError ''TypeError''))"

text \<open>\<open>str(path)\<close> and \<open>path.name\<close>\<close>

definition path_str :: "path \<Rightarrow> string" where
  "path_str p = (if p = [] then ''.'' else join ''/'' p)"

definition path_name :: "path \<Rightarrow> string" where
  "path_name p = (if p = [] then [] else last p)"

section \<open>Command Executor\<close>

datatype echo = Always | OnError | Never

record completed =
  args :: "string list"
  returncode :: int
  stdout :: "string option"
  stderr :: "string option"

text \<open>
  The two reader threads. Each takes the lines of its own stream, appends them to its own
  buffer and, under \<open>echo="always"\<close>, writes them to the standard stream of the same name.
  The order in which the two threads receive their lines is the order of \<open>lines_out\<close>; the
  state is the two buffers and what was written to the standard streams.
\<close>

definition reader_step ::
  "echo \<Rightarrow> stream \<times> string \<Rightarrow> string list \<times> string list \<times> event list \<Rightarrow>
     string list \<times> string list \<times> event list" where
  "reader_step echo ln st =
     (case st of (stdout_buf, stderr_buf, written) \<Rightarrow>
        (case fst ln of
           Stdout \<Rightarrow> (stdout_buf @ [snd ln], stderr_buf,
                       written @ (if echo = Always then [Emit Stdout (snd ln)] else []))
         | Stderr \<Rightarrow> (stdout_buf, stderr_buf @ [snd ln],
                       written @ (if echo = Always then [Emit Stderr (snd ln)] else []))))"

definition readers :: "echo \<Rightarrow> (stream \<times> string) list \<Rightarrow> string list \<times> string list \<times> event list" where
  "readers echo lns = fold (reader_step echo) lns ([], [], [])"

text \<open>
  \<open>run_logged(cmd, cwd=, capture_output=, text=, check=, echo=)\<close>. Without capture the
  child inherits the standard streams and its lines reach them as they are written. With
  capture the readers run until both streams end; only then is the exit code looked at, the
  buffers replayed under \<open>echo="on_error"\<close> when it is not zero, and the result built.
\<close>

definition run_logged ::
  "ext \<Rightarrow> string list \<Rightarrow> path option \<Rightarrow> bool \<Rightarrow> bool \<Rightarrow> bool \<Rightarrow> echo \<Rightarrow> completed action" where
  "run_logged x cmd cwd capture_output text check echo w =
     (if \<not> text then (Inl TextModeOnly, w)
      else
        (let w1 = w\<lparr>trace := trace w @ [Log (''$ '' @ join '' '' cmd)]\<rparr>;
             p = spawn x cmd cwd w1;
             rc = exit_code p;
             w2 = w1\<lparr>files := files_after p, dirs := dirs_after p\<rparr>
         in if \<not> capture_output then
              (let w3 = w2\<lparr>trace := trace w2 @ [Exec cmd cwd] @ map (\<lambda>ln. Emit (fst ln) (snd ln)) (lines_out p)
                                      @ [Exited rc]\<rparr>
               in if check \<and> rc \<noteq> 0 then (Inl (ProcessFailed cmd rc None None), w3)
                  else (Inr \<lparr>args = cmd, returncode = rc, stdout = None, stderr = None\<rparr>, w3))
            else
              (case readers echo (lines_out p) of (stdout_buf, stderr_buf, written) \<Rightarrow>
                 (let replay =
                        (if echo = OnError \<and> rc \<noteq> 0 then
                           (if stdout_buf \<noteq> [] then map (Emit Stdout) stdout_buf else [])
                           @ (if stderr_buf \<noteq> [] then map (Emit Stderr) stderr_buf else [])
                         else []);
                      w3 = w2\<lparr>trace := trace w2 @ [Exec cmd cwd] @ written @ [Exited rc] @ replay\<rparr>;
                      stdout_joined = concat stdout_buf;
                      stderr_joined = concat stderr_buf
                  in if check \<and> rc \<noteq> 0 then
                       (Inl (ProcessFailed cmd rc (Some stdout_joined) (Some stderr_joined)), w3)
                     else
                       (Inr \<lparr>args = cmd, returncode = rc, stdout = Some stdout_joined,
                             stderr = Some stderr_joined\<rparr>, w3)))))"

text \<open>What the two standard streams show of a stretch of the trace, as one text.\<close>

fun shown :: "event list \<Rightarrow> string" where
  "shown [] = []"
| "shown (Emit s text # evs) = text @ shown evs"
| "shown (_ # evs) = shown evs"

section \<open>Identity Resolver\<close>

record azure_ctx =
  subscription_id :: json
  tenant_id :: json

text \<open>
  The second half of \<open>azure_context()\<close>: the identity query and the reading of its
  response. The fields are whatever the decoded response holds under \<open>id\<close> and
  \<open>tenantId\<close>.
\<close>

definition account_show :: "string list" where
  "account_show = [''az'', ''account'', ''show'', ''--output'', ''json'']"

definition azure_context_query :: "ext \<Rightarrow> azure_ctx action" where
  "azure_context_query x =
     and_then (run_logged x account_show None True True True OnError)
       (\<lambda>result w'.
          (case stdout result of
             None \<Rightarrow> (Inl (PyError ''TypeError''), w')
           | Some out \<Rightarrow>
               (case json_loads x out of
                  None \<Rightarrow> (Inl (PyError ''JSONDecodeError''), w')
                | Some data \<Rightarrow>
                    (case subscript data ''id'' of
                       Inl e \<Rightarrow> (Inl e, w')
                     | Inr sub \<Rightarrow>
                         (case subscript data ''tenantId'' of
                            Inl e \<Rightarrow> (Inl e, w')
                          | Inr tenant \<Rightarrow>
                              (Inr \<lparr>subscription_id = sub, tenant_id = tenant\<rparr>, w'))))))"

text \<open>
  \<open>azure_context()\<close>: the subscription and the tenant are looked up independently, each
  under its \<open>AZURE_\<close> name first and its \<open>ARM_\<close> name second; when both lookups give a
  non-empty string these are returned, and the identity query is made otherwise.
\<close>

definition azure_context :: "ext \<Rightarrow> azure_ctx action" where
  "azure_context x w =
     (let env_sub = py_or (environ w ''AZURE_SUBSCRIPTION_ID'') (environ w ''ARM_SUBSCRIPTION_ID'');
          env_tenant = py_or (environ w ''AZURE_TENANT_ID'') (environ w ''ARM_TENANT_ID'')
      in (case (env_sub, env_tenant) of
            (Some sub, Some tenant) \<Rightarrow>
              if sub \<noteq> [] \<and> tenant \<noteq> [] then
                (Inr \<lparr>subscription_id = JStr sub, tenant_id = JStr tenant\<rparr>, w)
              else azure_context_query x w
          | _ \<Rightarrow> azure_context_query x w))"

section \<open>Build-and-Publish Pipeline: the registry endpoint\<close>

text \<open>\<open>d.get(key, default)\<close> on a decoded dictionary.\<close>

definition dict_get :: "(string \<times> json) list \<Rightarrow> string \<Rightarrow> json \<Rightarrow> json" where
  "dict_get d key dflt = (case map_of d key of None \<Rightarrow> dflt | Some v \<Rightarrow> v)"

text \<open>
  \<open>_registry_login_server(override, tfvars_data)\<close>. The chain of \<open>or\<close> gives the first of the
  override and the two environment variables that is set and not empty, and otherwise the
  recorded value, turned into a string and stripped.
\<close>

definition registry_login_server :: "ext \<Rightarrow> string option \<Rightarrow> (string \<times> json) list \<Rightarrow> world \<Rightarrow> string result" where
  "registry_login_server x override tfvars_data w =
     (let recorded =
            (let v = dict_get tfvars_data ''registry_login_server'' (JStr [])
             in strip (py_str x (if truthy v then v else JStr [])));
          val =
            (case py_or (py_or (py_or override (environ w ''AZ_READER_REGISTRY_LOGIN_SERVER''))
                               (environ w ''REGISTRY_LOGIN_SERVER'')) (Some recorded) of
               None \<Rightarrow> recorded
             | Some v \<Rightarrow> v)
      in if val = [] \<or> CHR ''<'' \<in> set val \<or> strip val = [] then Inl RegistryEndpointRequired
         else Inr val)"

section \<open>Files and environment\<close>

definition path_exists :: "world \<Rightarrow> path \<Rightarrow> bool" where
  "path_exists w p \<longleftrightarrow> files w p \<noteq> None \<or> dirs w p"

text \<open>
  \<open>p.read_text()\<close> and \<open>p.write_text(text)\<close>. Reading needs a regular file; writing needs
  that the path is not a directory and that its parent is one. Both raise an \<open>OSError\<close>
  otherwise.
\<close>

definition read_text :: "path \<Rightarrow> string action" where
  "read_text p w = (case files w p of None \<Rightarrow> (Inl (PyError ''OSError''), w) | Some text \<Rightarrow> (Inr text, w))"

definition write_text :: "path \<Rightarrow> string \<Rightarrow> unit action" where
  "write_text p text w =
     (if dirs w p \<or> \<not> dirs w (butlast p) then (Inl (PyError ''OSError''), w)
      else (Inr (), w\<lparr>files := (files w)(p \<mapsto> text), trace := trace w @ [WriteText p text]\<rparr>))"

text \<open>
  \<open>p.mkdir(parents=True, exist_ok=True)\<close>: the path and its ancestors become directories,
  unless one of them is a regular file.
\<close>

definition is_ancestor :: "path \<Rightarrow> path \<Rightarrow> bool" where
  "is_ancestor q p \<longleftrightarrow> take (length q) p = q"

definition mkdir_parents :: "path \<Rightarrow> unit action" where
  "mkdir_parents p w =
     (if \<exists>n\<in>set [0..<length p + 1]. files w (take n p) \<noteq> None then (Inl (PyError ''OSError''), w)
      else (Inr (), w\<lparr>dirs := (\<lambda>q. dirs w q \<or> is_ancestor q p)\<rparr>))"

text \<open>
  \<open>os.environ[key] = value\<close>: the value must be a string (\<open>TypeError\<close> otherwise) without a
  null character (\<open>ValueError\<close>).
\<close>

definition setenv :: "string \<Rightarrow> json \<Rightarrow> unit action" where
  "setenv key v w =
     (case v of
        JStr s \<Rightarrow>
          if CHR 0x00 \<in> set s then (Inl (PyError ''ValueError''), w)
          else (Inr (), w\<lparr>environ := (environ w)(key \<mapsto> s)\<rparr>)
      | _ \<Rightarrow> (Inl (PyError ''TypeError''), w))"

text \<open>\<open>ensure(binaries)\<close>\<close>

fun ensure :: "ext \<Rightarrow> string list \<Rightarrow> unit action" where
  "ensure x [] = ok ()"
| "ensure x (b # bs) = (if \<not> which x b then fail (RequiredBinaryNotFound b) else ensure x bs)"

section \<open>Stack Lifecycle Controller\<close>

record paths =
  root :: path
  bootstrap :: path
  workload :: path

record bootstrap_state =
  resource_group :: string
  storage_account :: string
  container :: string
  blob_key :: string

definition resolve_paths :: "ext \<Rightarrow> paths" where
  "resolve_paths x =
     \<lparr>root = repo_root x,
      bootstrap = repo_root x @ [''infra'', ''terraform'', ''stacks'', ''00-bootstrap''],
      workload = repo_root x @ [''infra'', ''terraform'', ''stacks'', ''20-workload'']\<rparr>"

text \<open>
  \<open>ensure_tfvars(stack_dir, env, subscription_id, tenant_id)\<close>. The environment code is one
  path component. The identity values pass through the f-string of \<open>_set_tfvar_value\<close>,
  that is through \<open>str\<close>.
\<close>

definition ensure_tfvars :: "ext \<Rightarrow> path \<Rightarrow> string \<Rightarrow> json \<Rightarrow> json \<Rightarrow> path action" where
  "ensure_tfvars x stack_dir env sub tenant w =
     (let target = stack_dir @ [env @ ''.tfvars''];
          example_candidates =
            [stack_dir @ [''terraform.tfvars.'' @ env @ ''.example''],
             stack_dir @ [env @ ''.tfvars.example''],
             stack_dir @ [''terraform.tfvars.example'']];
          example = find (path_exists w) example_candidates
      in and_then
           (if \<not> path_exists w target then
              (case example of
                 None \<Rightarrow> fail MissingVariableTemplate
               | Some ex \<Rightarrow>
                   and_then (read_text ex) (\<lambda>text.
                   and_then (write_text target text) (\<lambda>_.
                   log_info (''Seeded tfvars for '' @ env @ '' from '' @ path_name ex))))
            else ok ())
           (\<lambda>_.
            and_then (\<lambda>w'. if path_exists w' target then read_text target w' else ok [] w') (\<lambda>content.
            (let content1 = set_tfvar_value content ''subscription_id'' (py_str x sub);
                 content2 = set_tfvar_value content1 ''tenant_id'' (py_str x tenant);
                 content3 = set_tfvar_value content2 ''environment_code'' env
             in and_then (write_text target content3) (\<lambda>_.
                and_then (log_info (''Updated '' @ path_name target
                                    @ '' with subscription_id, tenant_id, and environment_code'')) (\<lambda>_.
                ok target))))) w)"

text \<open>
  \<open>update_tfvars(tfvars_path, updates)\<close>, the updates being a dictionary in insertion order.
\<close>

definition update_tfvars :: "path \<Rightarrow> (string \<times> string) list \<Rightarrow> unit action" where
  "update_tfvars tfvars_path updates =
     and_then (\<lambda>w. if path_exists w tfvars_path then read_text tfvars_path w else ok [] w) (\<lambda>content.
     write_text tfvars_path (fold (\<lambda>kv text. set_tfvar_value text (fst kv) (snd kv)) updates content))"

text \<open>
  The calls of the provisioning tool. \<open>extra_args\<close> is a list, \<open>None\<close> and the empty list
  being the same to the source.
\<close>

definition terraform_apply :: "ext \<Rightarrow> path \<Rightarrow> path \<Rightarrow> bool \<Rightarrow> string list \<Rightarrow> unit action" where
  "terraform_apply x stack_dir tfvars auto_approve extra_args =
     and_then
       (run_logged x
          ([''terraform'', ''apply'', ''-var-file'', path_name tfvars]
           @ (if auto_approve then [''--auto-approve''] else []) @ extra_args)
          (Some stack_dir) False True True Always)
       (\<lambda>_. ok ())"

definition terraform_plan :: "ext \<Rightarrow> path \<Rightarrow> path \<Rightarrow> string list \<Rightarrow> unit action" where
  "terraform_plan x stack_dir tfvars extra_args =
     and_then
       (run_logged x ([''terraform'', ''plan'', ''-var-file'', path_name tfvars] @ extra_args)
          (Some stack_dir) False True True Always)
       (\<lambda>_. ok ())"

definition terraform_output :: "ext \<Rightarrow> path \<Rightarrow> json action" where
  "terraform_output x stack_dir =
     and_then (run_logged x [''terraform'', ''output'', ''-json''] (Some stack_dir) True True True OnError)
       (\<lambda>result.
          (case stdout result of
             None \<Rightarrow> fail (PyError ''TypeError'')
           | Some out \<Rightarrow>
               (case json_loads x out of
                  None \<Rightarrow> fail (PyError ''JSONDecodeError'')
                | Some outputs \<Rightarrow> ok outputs)))"

definition terraform_init_local :: "ext \<Rightarrow> path \<Rightarrow> path \<Rightarrow> unit action" where
  "terraform_init_local x stack_dir state_path =
     and_then (mkdir_parents (butlast state_path)) (\<lambda>_.
     and_then
       (run_logged x
          [''terraform'', ''init'', ''-reconfigure'', ''-backend-config'', ''path='' @ path_str state_path]
          (Some stack_dir) False True True Always)
       (\<lambda>_. ok ()))"

definition terraform_init_remote ::
  "ext \<Rightarrow> path \<Rightarrow> json \<Rightarrow> string \<Rightarrow> string \<Rightarrow> string \<Rightarrow> string \<Rightarrow> unit action" where
  "terraform_init_remote x stack_dir tenant state_rg state_sa state_container state_key =
     and_then
       (run_logged x
          [''terraform'', ''init'', ''-reconfigure'',
           ''-backend-config=use_azuread_auth=true'',
           ''-backend-config=tenant_id='' @ py_str x tenant,
           ''-backend-config=resource_group_name='' @ state_rg,
           ''-backend-config=storage_account_name='' @ state_sa,
           ''-backend-config=container_name='' @ state_container,
           ''-backend-config=key='' @ state_key]
          (Some stack_dir) False True True Always)
       (\<lambda>_. ok ())"

text \<open>
  \<open>bootstrap_state_from_outputs(outputs)\<close>. \<open>outputs.get(key, {}).get("value")\<close> raises an
  \<open>AttributeError\<close> when \<open>outputs\<close> or the entry is not a dictionary; a missing or null
  value is the \<open>KeyError\<close> of \<open>_required\<close>.
\<close>

definition required :: "ext \<Rightarrow> json \<Rightarrow> string \<Rightarrow> string result" where
  "required x outputs key =
     (case outputs of
        JObj kvs \<Rightarrow>
          (case dict_get kvs key (JObj []) of
             JObj node \<Rightarrow>
               (case map_of node ''value'' of
                  None \<Rightarrow> Inl (MissingStackOutput key)
                | Some JNull \<Rightarrow> Inl (MissingStackOutput key)
                | Some v \<Rightarrow> Inr (py_str x v))
           | _ \<Rightarrow> Inl (PyError ''AttributeError''))
      | _ \<Rightarrow> Inl (PyError ''AttributeError''))"

definition bootstrap_state_from_outputs :: "ext \<Rightarrow> json \<Rightarrow> bootstrap_state result" where
  "bootstrap_state_from_outputs x outputs =
     (case required x outputs ''state_rg_name'' of Inl e \<Rightarrow> Inl e | Inr rg \<Rightarrow>
     (case required x outputs ''state_storage_account_name'' of Inl e \<Rightarrow> Inl e | Inr sa \<Rightarrow>
     (case required x outputs ''state_container_name'' of Inl e \<Rightarrow> Inl e | Inr cn \<Rightarrow>
     (case required x outputs ''state_blob_key'' of Inl e \<Rightarrow> Inl e | Inr bk \<Rightarrow>
        Inr \<lparr>resource_group = rg, storage_account = sa, container = cn, blob_key = bk\<rparr>))))"

text \<open>\<open>load_bootstrap_state(env, paths, ctx)\<close>\<close>

definition bootstrap_state_path :: "paths \<Rightarrow> string \<Rightarrow> path" where
  "bootstrap_state_path ps env = bootstrap ps @ [''.state'', env, ''bootstrap.tfstate'']"

definition load_bootstrap_state :: "ext \<Rightarrow> string \<Rightarrow> paths \<Rightarrow> azure_ctx \<Rightarrow> bootstrap_state action" where
  "load_bootstrap_state x env ps ctx w =
     (let state_path = bootstrap_state_path ps env
      in if \<not> path_exists w state_path then (Inl (UpstreamNotBootstrapped state_path), w)
         else
           and_then (setenv ''ARM_SUBSCRIPTION_ID'' (subscription_id ctx)) (\<lambda>_.
           and_then (setenv ''ARM_TENANT_ID'' (tenant_id ctx)) (\<lambda>_.
           and_then (terraform_init_local x (bootstrap ps) state_path) (\<lambda>_.
           and_then (terraform_output x (bootstrap ps)) (\<lambda>outputs w'.
             (bootstrap_state_from_outputs x outputs, w'))))) w)"


section \<open>Build-and-Publish Pipeline\<close>




text \<open>\<open>_safe_load_tfvars(tfvars)\<close>: the decoded file, or the empty dictionary on any failure.\<close>

definition safe_load_tfvars :: "ext \<Rightarrow> path \<Rightarrow> world \<Rightarrow> (string \<times> json) list" where
  "safe_load_tfvars x tfvars w =
     (case files w tfvars of
        None \<Rightarrow> []
      | Some text \<Rightarrow> (case hcl2_load x text of None \<Rightarrow> [] | Some d \<Rightarrow> d))"











section \<open>The workload deployment\<close>

text \<open>
  \<open>_log_app_endpoints(workload_path)\<close>: the two endpoints, when the outputs have them, with a
  scheme put in front where there is none.
\<close>

definition output_val :: "ext \<Rightarrow> (string \<times> json) list \<Rightarrow> string \<Rightarrow> string option" where
  "output_val x outputs key =
     (case dict_get outputs key (JObj []) of
        JObj node \<Rightarrow>
          (case map_of node ''value'' of
             None \<Rightarrow> None
           | Some JNull \<Rightarrow> None
           | Some v \<Rightarrow> Some (py_str x v))
      | _ \<Rightarrow> None)"

definition normalize_url :: "string \<Rightarrow> string" where
  "normalize_url url = (if startswith url ''http'' then url else ''https://'' @ url)"

definition log_app_endpoints :: "ext \<Rightarrow> path \<Rightarrow> unit action" where
  "log_app_endpoints x workload_path =
     and_then (terraform_output x workload_path) (\<lambda>outputs.
       (case outputs of
          JObj kvs \<Rightarrow>
            (let crawl_fqdn = output_val x kvs ''crawl_container_app_fqdn'';
                 search_fqdn = output_val x kvs ''search_container_app_fqdn'' in
             and_then (log_info ''==> Deployment outputs'') (\<lambda>_.
             and_then
               (case crawl_fqdn of
                  Some url \<Rightarrow>
                    if url \<noteq> [] then log_info (''Crawl app:  '' @ normalize_url url @ ''/'') else ok ()
                | None \<Rightarrow> ok ()) (\<lambda>_.
               (case search_fqdn of
                  Some url \<Rightarrow>
                    if url \<noteq> [] then log_info (''Search app: '' @ normalize_url url @ ''/search'') else ok ()
                | None \<Rightarrow> ok ()))))
        | _ \<Rightarrow> fail (PyError ''AttributeError'')))"



definition deploy_workload_backend ::
  "ext \<Rightarrow> string \<Rightarrow> string list \<Rightarrow> azure_ctx \<Rightarrow> paths \<Rightarrow> path \<Rightarrow> unit action" where
  "deploy_workload_backend x env extra ctx ps tfvars =
     and_then (load_bootstrap_state x env ps ctx) (\<lambda>bs.
     and_then
       (update_tfvars tfvars
          [(''state_resource_group_name'', resource_group bs),
           (''state_storage_account_name'', storage_account bs),
           (''state_container_name'', container bs),
           (''state_blob_key'', blob_key bs)]) (\<lambda>_.
     and_then (log_info (''==> 20-workload ('' @ env @ '')'')) (\<lambda>_.
     and_then
       (terraform_init_remote x (workload ps) (tenant_id ctx) (resource_group bs) (storage_account bs)
          (container bs) (blob_key bs)) (\<lambda>_.
     and_then (terraform_plan x (workload ps) tfvars extra) (\<lambda>_.
     and_then (terraform_apply x (workload ps) tfvars True extra) (\<lambda>_.
     log_app_endpoints x (workload ps)))))))"


section \<open>Token Registry: the secret store\<close>

text \<open>
  \<open>_load_tokens(vault, secret)\<close>: the secret is read with the identity tool; any exception
  of the read gives the empty token set. \<open>_save_tokens(vault, secret, tokens)\<close> writes the
  serialized token set back.
\<close>

definition load_tokens :: "ext \<Rightarrow> string \<Rightarrow> string \<Rightarrow> tokens action" where
  "load_tokens x vault secret w =
     (case run_logged x
             [''az'', ''keyvault'', ''secret'', ''show'', ''--vault-name'', vault, ''--name'', secret,
              ''--query'', ''value'', ''--output'', ''tsv'']
             None True True True OnError w of
        (Inl e, w') \<Rightarrow> (Inr [], w')
      | (Inr result, w') \<Rightarrow> (Inr (parse_tokens (stdout result)), w'))"

definition save_tokens :: "ext \<Rightarrow> string \<Rightarrow> string \<Rightarrow> tokens \<Rightarrow> unit action" where
  "save_tokens x vault secret toks =
     and_then
       (run_logged x
          [''az'', ''keyvault'', ''secret'', ''set'', ''--vault-name'', vault, ''--name'', secret,
           ''--value'', serialize_tokens toks]
          None True True True OnError)
       (\<lambda>_. ok ())"

definition print_lines :: "string list \<Rightarrow> unit action" where
  "print_lines ls = record_events (map (\<lambda>s. Emit Stdout (s @ [LF])) ls)"

text \<open>
  The names of the \<open>add\<close> entries for the summary. They are parsed a second time there;
  every entry parses, since the \<open>add\<close> loop has run.
\<close>

definition added_names :: "string list \<Rightarrow> string list" where
  "added_names add =
     sort (concat (map (\<lambda>t. case parse_name_value t of Inl e \<Rightarrow> [] | Inr nv \<Rightarrow> [fst nv]) add))"

text \<open>
  \<open>manage_tokens(vault=, secret=, add=, remove=, generate=, list_only=)\<close>: the load, the
  three loops, and then either the listing (when nothing but a listing was asked for) or the
  save and the summary.
\<close>

definition manage_tokens ::
  "ext \<Rightarrow> (nat \<Rightarrow> string) \<Rightarrow> string \<Rightarrow> string \<Rightarrow> string list \<Rightarrow> string list \<Rightarrow> string list \<Rightarrow> bool \<Rightarrow>
     unit action" where
  "manage_tokens x rng vault secret add remove generate list_only =
     and_then (load_tokens x vault secret) (\<lambda>loaded.
       (case update_tokens rng loaded add remove generate of
          Inl e \<Rightarrow> fail e
        | Inr st \<Rightarrow>
            if list_only \<and> add = [] \<and> remove = [] \<and> generate = [] then
              print_lines (map entry_text (sort (tokens st)))
            else
              and_then (save_tokens x vault secret (tokens st)) (\<lambda>_.
              print_lines
                ([''vault='' @ vault, ''secret='' @ secret,
                  ''total_tokens='' @ str_nat (length (tokens st))]
                 @ (if generated st \<noteq> [] then
                      ''generated:'' # map (\<lambda>item. ''  '' @ entry_text item) (generated st)
                    else [])
                 @ (if add \<noteq> [] then [''added_names='' @ join '','' (added_names add)] else [])
                 @ (if remove \<noteq> [] then [''removed_names='' @ join '','' (sort remove)] else [])))))"

subsection \<open>Notions used in the statements about the external world\<close>

text \<open>
  \<open>stream_lines s\<close> are the lines that a child wrote to the stream \<open>s\<close>, in order.
  \<open>first_nonempty\<close> is the first of a list of optional strings that is present and not
  empty. \<open>query_result\<close> is the result of the identity query, read off the child process.
  The worlds and tools at the end serve as examples.
\<close>

definition stream_lines :: "stream \<Rightarrow> (stream \<times> string) list \<Rightarrow> string list" where
  "stream_lines s lns = map snd (filter (\<lambda>ln. fst ln = s) lns)"

definition first_nonempty :: "string option list \<Rightarrow> string option" where
  "first_nonempty srcs = (case filter truthy_str srcs of [] \<Rightarrow> None | s # _ \<Rightarrow> s)"

definition query_result :: "ext \<Rightarrow> world \<Rightarrow> azure_ctx result" where
  "query_result x w =
     (let w1 = w\<lparr>trace := trace w @ [Log (''$ '' @ join '' '' account_show)]\<rparr>;
          p = spawn x account_show None w1;
          out = concat (stream_lines Stdout (lines_out p));
          err = concat (stream_lines Stderr (lines_out p))
      in if exit_code p \<noteq> 0 then Inl (ProcessFailed account_show (exit_code p) (Some out) (Some err))
         else
           (case json_loads x out of
              None \<Rightarrow> Inl (PyError ''JSONDecodeError'')
            | Some data \<Rightarrow>
                (case subscript data ''id'' of
                   Inl e \<Rightarrow> Inl e
                 | Inr sub \<Rightarrow>
                     (case subscript data ''tenantId'' of
                        Inl e \<Rightarrow> Inl e
                      | Inr tenant \<Rightarrow> Inr \<lparr>subscription_id = sub, tenant_id = tenant\<rparr>))))"

definition example_world :: world where
  "example_world = \<lparr>files = (\<lambda>p. None), dirs = (\<lambda>p. False), environ = (\<lambda>k. None), trace = []\<rparr>"

definition env_of :: "(string \<times> string) list \<Rightarrow> world" where
  "env_of kvs = \<lparr>files = (\<lambda>p. None), dirs = (\<lambda>p. False), environ = map_of kvs, trace = []\<rparr>"

definition failing_tool :: ext where
  "failing_tool =
     \<lparr>which = (\<lambda>b. True),
      spawn = (\<lambda>cmd cwd w. \<lparr>exit_code = 1, lines_out = [(Stderr, ''B'' @ [LF]), (Stdout, ''A'' @ [LF])],
                               files_after = files w, dirs_after = dirs w\<rparr>),
      json_loads = (\<lambda>s. None), hcl2_load = (\<lambda>s. None), py_repr = (\<lambda>v. []), clock = (\<lambda>w. ''20240101000000''),
      mkdtemp = (\<lambda>prefix w. [''tmp'', prefix @ ''0'']),
      repo_root = [''repo'']\<rparr>"

definition identity_tool :: ext where
  "identity_tool =
     \<lparr>which = (\<lambda>b. True),
      spawn = (\<lambda>cmd cwd w. \<lparr>exit_code = 0, lines_out = [(Stdout, ''{...}'' @ [LF])],
                               files_after = files w, dirs_after = dirs w\<rparr>),
      json_loads = (\<lambda>s. Some (JObj [(''id'', JStr ''sub-1''), (''tenantId'', JStr ''tenant-1'')])),
      hcl2_load = (\<lambda>s. None), py_repr = (\<lambda>v. []), clock = (\<lambda>w. ''20240101000000''),
      mkdtemp = (\<lambda>prefix w. [''tmp'', prefix @ ''0'']),
      repo_root = [''repo'']\<rparr>"

text \<open>
  An action appends to the trace when the trace after it is the trace before it with events
  added. An action never reports a missing bootstrap state when \<open>UpstreamNotBootstrapped\<close> is
  not among its failures.
\<close>

definition appends :: "'a action \<Rightarrow> bool" where
  "appends m \<longleftrightarrow> (\<forall>w. \<exists>evs. trace (snd (m w)) = trace w @ evs)"







section \<open>Config Patcher: proofs\<close>

lemma endswith_single: "endswith s [c] \<longleftrightarrow> s \<noteq> [] \<and> last s = c"
  by (cases s rule: rev_cases) (auto simp: endswith_def)

lemma join_snoc: "xs \<noteq> [] \<Longrightarrow> join sep (xs @ [x]) = join sep xs @ sep @ x"
  by (induction sep xs rule: join.induct) auto

lemma join_unlines: "xs \<noteq> [] \<Longrightarrow> join [LF] xs @ [LF] = unlines xs"
  by (induction "[LF]" xs rule: join.induct) (auto simp: unlines_def)

lemma join_replicate_empty:
  "xs \<noteq> [] \<Longrightarrow> join [c] (xs @ replicate n []) = join [c] xs @ replicate n c"
proof (induction n)
  case 0
  then show ?case by simp
next
  case (Suc n)
  have "join [c] (xs @ replicate (Suc n) []) = join [c] ((xs @ replicate n []) @ [[]])"
    by (simp add: replicate_append_same)
  also have "\<dots> = join [c] (xs @ replicate n []) @ [c]"
    using Suc.prems by (subst join_snoc) auto
  finally show ?case using Suc by (simp add: replicate_append_same)
qed

lemma join_last:
  "xs \<noteq> [] \<Longrightarrow> last xs \<noteq> [] \<Longrightarrow> join sep xs \<noteq> [] \<and> last (join sep xs) = last (last xs)"
  by (induction sep xs rule: join.induct) auto

lemma last_join: "xs \<noteq> [] \<Longrightarrow> last xs \<noteq> [] \<Longrightarrow> last (join sep xs) = last (last xs)"
  by (simp add: join_last)

lemma join_nonempty: "xs \<noteq> [] \<Longrightarrow> last xs \<noteq> [] \<Longrightarrow> join sep xs \<noteq> []"
  by (simp add: join_last)

lemma split_trailing_empty:
  "ls = rev (dropWhile (\<lambda>l. l = []) (rev ls)) @ replicate (trailing_empty ls) []"
proof -
  have "takeWhile (\<lambda>l. l = []) (rev ls) = replicate (trailing_empty ls) []"
    unfolding trailing_empty_def
    by (rule replicate_length_same[symmetric]) (auto dest: set_takeWhileD)
  then have "rev ls = replicate (trailing_empty ls) [] @ dropWhile (\<lambda>l. l = []) (rev ls)"
    by (metis takeWhile_dropWhile_id)
  then show ?thesis by (metis rev_append rev_replicate rev_rev_ident)
qed

lemma trailing_newlines_replicate:
  "s \<noteq> [] \<Longrightarrow> last s \<noteq> LF \<Longrightarrow> trailing_newlines (s @ replicate n LF) = n"
  by (cases s rule: rev_cases) (auto simp: trailing_newlines_def takeWhile_append)

lemma render_trailing:
  assumes "front \<noteq> []" "last front \<noteq> []" "last (last front) \<noteq> LF"
  shows "trailing_newlines (render (front @ replicate n [])) = max 1 n"
proof -
  let ?j = "join [LF] front"
  have j: "?j \<noteq> []" "last ?j \<noteq> LF"
    using assms by (simp_all add: join_nonempty last_join)
  have eq: "join [LF] (front @ replicate n []) = ?j @ replicate n LF"
    using assms(1) by (rule join_replicate_empty)
  show ?thesis
  proof (cases n)
    case 0
    then have "render (front @ replicate n []) = ?j @ replicate 1 LF"
      using j by (simp add: render_def endswith_single)
    then show ?thesis using trailing_newlines_replicate[OF j, of 1] 0 by simp
  next
    case (Suc m)
    then have "render (front @ replicate n []) = ?j @ replicate n LF"
      using j eq by (simp add: render_def endswith_single)
    then show ?thesis using trailing_newlines_replicate[OF j, of n] Suc by simp
  qed
qed

lemma render_trailing_general:
  assumes ne: "\<exists>l\<in>set ls. l \<noteq> []" and lf: "\<forall>l\<in>set ls. l \<noteq> [] \<longrightarrow> last l \<noteq> LF"
  shows "trailing_newlines (render ls) = max 1 (trailing_empty ls)"
proof -
  let ?front = "rev (dropWhile (\<lambda>l. l = []) (rev ls))"
  have d: "dropWhile (\<lambda>l. l = []) (rev ls) \<noteq> []"
    using ne by (simp add: dropWhile_eq_Nil_conv)
  then have f: "?front \<noteq> []" by simp
  have "hd (dropWhile (\<lambda>l. l = []) (rev ls)) \<noteq> []"
    using d by (rule hd_dropWhile)
  then have l: "last ?front \<noteq> []"
    using d by (simp add: last_rev)
  have "last ?front \<in> set ?front" using f by (rule last_in_set)
  then have "last ?front \<in> set ls" by (auto dest: set_dropWhileD)
  then have ll: "last (last ?front) \<noteq> LF" using lf l by blast
  have "trailing_newlines (render (?front @ replicate (trailing_empty ls) [])) = max 1 (trailing_empty ls)"
    using f l ll by (rule render_trailing)
  then show ?thesis using split_trailing_empty[of ls] by simp
qed

lemma splitlines_from_no_linebreak:
  "l \<in> set (splitlines_from cur s) \<Longrightarrow> \<forall>c\<in>set cur. \<not> is_linebreak c \<Longrightarrow> \<forall>c\<in>set l. \<not> is_linebreak c"
proof (induction cur s arbitrary: l rule: splitlines_from.induct)
  case (1 cur)
  then show ?case by (simp split: if_splits)
next
  case (2 cur c cs)
  show ?case
  proof (cases "is_linebreak c")
    case False
    then have "l \<in> set (splitlines_from (cur @ [c]) cs)" using "2.prems"(1) by simp
    moreover have "\<forall>x\<in>set (cur @ [c]). \<not> is_linebreak x" using False "2.prems"(2) by simp
    ultimately show ?thesis using "2.IH"(4)[OF False] by blast
  next
    case True
    show ?thesis
    proof (cases cs)
      case Nil
      then have "l = cur" using True "2.prems"(1) by simp
      then show ?thesis using "2.prems"(2) by simp
    next
      case (Cons d ds)
      show ?thesis
      proof (cases "c = CR \<and> d = LF")
        case t: True
        then have "l = cur \<or> l \<in> set (splitlines_from [] ds)"
          using True Cons "2.prems"(1) by simp
        then show ?thesis using "2.IH"(2)[OF True Cons t] "2.prems"(2) by auto
      next
        case f: False
        then have "l = cur \<or> l \<in> set (splitlines_from [] cs)"
          using True Cons "2.prems"(1) by auto
        then show ?thesis using "2.IH"(3)[OF True Cons f] "2.prems"(2) by auto
      qed
    qed
  qed
qed

lemma splitlines_no_linebreak: "l \<in> set (splitlines s) \<Longrightarrow> c \<in> set l \<Longrightarrow> \<not> is_linebreak c"
  using splitlines_from_no_linebreak[of l "[]" s] by (simp add: splitlines_def)

lemma is_linebreak_LF: "is_linebreak LF"
  by (simp add: is_linebreak_def LF_def)

lemma replace_first_None: "replace_first k nl ls = None \<longleftrightarrow> (\<forall>l\<in>set ls. \<not> assigns k l)"
  by (induction ls) auto

lemma replace_first_Some:
  "replace_first k nl ls = Some r \<Longrightarrow>
   \<exists>pre l post. ls = pre @ l # post \<and> (\<forall>x\<in>set pre. \<not> assigns k x) \<and> assigns k l \<and>
     r = pre @ (indent_of l @ nl) # post"
proof (induction ls arbitrary: r)
  case Nil
  then show ?case by simp
next
  case (Cons a ls)
  show ?case
  proof (cases "assigns k a")
    case True
    with Cons.prems have "r = (indent_of a @ nl) # ls" by simp
    with True show ?thesis by (intro exI[of _ "[]"] exI[of _ a] exI[of _ ls]) simp
  next
    case False
    with Cons.prems obtain r' where r': "replace_first k nl ls = Some r'" "r = a # r'"
      by auto
    from Cons.IH[OF r'(1)] obtain pre l post where
      "ls = pre @ l # post" "\<forall>x\<in>set pre. \<not> assigns k x" "assigns k l" "r' = pre @ (indent_of l @ nl) # post"
      by blast
    with False r'(2) show ?thesis
      by (intro exI[of _ "a # pre"] exI[of _ l] exI[of _ post]) simp
  qed
qed

lemma assigns_nonempty: "assigns k l \<Longrightarrow> l \<noteq> []"
  by (auto simp: assigns_def strip_def lstrip_def rstrip_def)

lemma assignment_line_last: "assignment_line k v \<noteq> [] \<and> last (assignment_line k v) = CHR 0x22"
  by (simp add: assignment_line_def)

lemma trailing_empty_mid:
  "x \<noteq> [] \<Longrightarrow> y \<noteq> [] \<Longrightarrow> trailing_empty (pre @ x # post) = trailing_empty (pre @ y # post)"
  by (simp add: trailing_empty_def takeWhile_append)

lemma set_tfvar_value_render:
  "set_tfvar_value content key val =
     render (case replace_first key (assignment_line key val) (splitlines content) of
               Some ls \<Rightarrow> ls | None \<Rightarrow> splitlines content @ [assignment_line key val])"
  by (simp add: set_tfvar_value_def render_def Let_def)

lemma set_tfvar_value_absent:
  assumes "\<forall>l\<in>set (splitlines content). \<not> assigns key l"
  shows "set_tfvar_value content key val = unlines (splitlines content) @ assignment_line key val @ [LF]"
proof -
  let ?ls = "splitlines content @ [assignment_line key val]"
  have "replace_first key (assignment_line key val) (splitlines content) = None"
    using assms by (simp add: replace_first_None)
  then have "set_tfvar_value content key val = render ?ls"
    by (simp add: set_tfvar_value_render)
  moreover have "last (join [LF] ?ls) = CHR 0x22" "join [LF] ?ls \<noteq> []"
    using join_last[of ?ls "[LF]"] by (simp_all add: assignment_line_last)
  then have "render ?ls = join [LF] ?ls @ [LF]"
    by (simp add: render_def endswith_single LF_def)
  moreover have "join [LF] ?ls @ [LF] = unlines ?ls"
    by (rule join_unlines) simp
  ultimately show ?thesis by (simp add: unlines_def)
qed

lemma set_tfvar_value_trailing:
  "trailing_newlines (set_tfvar_value content key val) =
     (if \<forall>l\<in>set (splitlines content). \<not> assigns key l then 1
      else max 1 (trailing_empty (splitlines content)))"
proof (cases "replace_first key (assignment_line key val) (splitlines content)")
  case None
  then have a: "\<forall>l\<in>set (splitlines content). \<not> assigns key l"
    by (simp add: replace_first_None)
  have "trailing_newlines ((unlines (splitlines content) @ assignment_line key val) @ replicate 1 LF) = 1"
    by (rule trailing_newlines_replicate) (simp_all add: assignment_line_last LF_def)
  then show ?thesis using a set_tfvar_value_absent[OF a, of val] by simp
next
  case (Some r)
  then obtain pre l post where
    ls: "splitlines content = pre @ l # post" and l: "assigns key l" and
    r: "r = pre @ (indent_of l @ assignment_line key val) # post"
    by (blast dest: replace_first_Some)
  have na: "\<not> (\<forall>l\<in>set (splitlines content). \<not> assigns key l)"
    using ls l by auto
  have lf: "\<forall>x\<in>set r. x \<noteq> [] \<longrightarrow> last x \<noteq> LF"
  proof (intro ballI impI)
    fix x assume x: "x \<in> set r" "x \<noteq> []"
    show "last x \<noteq> LF"
    proof (cases "x = indent_of l @ assignment_line key val")
      case True
      then show ?thesis by (simp add: assignment_line_last LF_def)
    next
      case False
      with x r ls have "x \<in> set (splitlines content)" by auto
      moreover have "last x \<in> set x" using x(2) by simp
      ultimately have "\<not> is_linebreak (last x)" by (rule splitlines_no_linebreak)
      then show ?thesis using is_linebreak_LF by auto
    qed
  qed
  have "\<exists>x\<in>set r. x \<noteq> []" using r by (auto simp: assignment_line_last)
  then have "trailing_newlines (render r) = max 1 (trailing_empty r)"
    using lf by (rule render_trailing_general)
  moreover have "trailing_empty r = trailing_empty (splitlines content)"
    unfolding r ls using assigns_nonempty[OF l]
    by (intro trailing_empty_mid) (simp_all add: assignment_line_last)
  ultimately have "trailing_newlines (render r) = max 1 (trailing_empty (splitlines content))"
    by simp
  moreover have "set_tfvar_value content key val = render r"
    using Some by (simp add: set_tfvar_value_render)
  ultimately show ?thesis using na by (simp only: if_False)
qed

lemma splitlines_from_line:
  "no_linebreak l \<Longrightarrow> splitlines_from cur (l @ LF # rest) = (cur @ l) # splitlines_from [] rest"
proof (induction l arbitrary: cur)
  case Nil
  have "LF \<noteq> CR" by (simp add: LF_def CR_def)
  then show ?case by (cases rest) (simp_all add: is_linebreak_LF)
next
  case (Cons a l)
  then have "\<not> is_linebreak a" "no_linebreak l" by (simp_all add: no_linebreak_def)
  with Cons.IH[of "cur @ [a]"] show ?case by simp
qed

lemma splitlines_unlines:
  "\<forall>l\<in>set ls. no_linebreak l \<Longrightarrow> splitlines (unlines ls) = ls"
proof -
  assume a: "\<forall>l\<in>set ls. no_linebreak l"
  then have "splitlines_from [] (unlines ls) = ls"
  proof (induction ls)
    case Nil
    then show ?case by (simp add: unlines_def)
  next
    case (Cons l ls)
    have "unlines (l # ls) = l @ LF # unlines ls" by (simp add: unlines_def)
    then show ?case using Cons by (simp add: splitlines_from_line)
  qed
  then show ?thesis by (simp add: splitlines_def)
qed

lemma render_unlines:
  assumes "ls \<noteq> []" "last ls \<noteq> []" "last (last ls) \<noteq> LF"
  shows "render ls = unlines ls"
proof -
  have "join [LF] ls \<noteq> []" "last (join [LF] ls) \<noteq> LF"
    using assms by (simp_all add: join_last)
  then have "render ls = join [LF] ls @ [LF]"
    by (simp add: render_def endswith_single)
  then show ?thesis using assms(1) by (simp add: join_unlines)
qed

lemma render_unlines_empty_last:
  assumes "xs \<noteq> []"
  shows "render (xs @ [[]]) = unlines xs"
proof -
  have "join [LF] (xs @ [[]]) = join [LF] xs @ [LF]"
    using assms by (simp add: join_snoc)
  then have "render (xs @ [[]]) = join [LF] xs @ [LF]"
    by (simp add: render_def endswith_single)
  then show ?thesis using assms by (simp add: join_unlines)
qed

lemma splitlines_render:
  assumes nl: "\<forall>l\<in>set ls. no_linebreak l" and ne: "\<exists>l\<in>set ls. l \<noteq> []"
  shows "splitlines (render ls) = chop ls"
proof (cases "last ls = []")
  case True
  from ne have "ls \<noteq> []" by auto
  then obtain xs where xs: "ls = xs @ [[]]"
    using True by (metis append_butlast_last_id)
  with ne have "xs \<noteq> []" by auto
  then have "render ls = unlines xs" unfolding xs by (rule render_unlines_empty_last)
  moreover have "\<forall>l\<in>set xs. no_linebreak l" using nl xs by simp
  ultimately have "splitlines (render ls) = xs" by (simp add: splitlines_unlines)
  then show ?thesis using xs by (simp add: chop_def)
next
  case False
  from ne have n: "ls \<noteq> []" by auto
  then have "last ls \<in> set ls" by simp
  then have "no_linebreak (last ls)" using nl by blast
  moreover have "last (last ls) \<in> set (last ls)" using False by simp
  ultimately have "\<not> is_linebreak (last (last ls))" by (simp add: no_linebreak_def)
  then have "last (last ls) \<noteq> LF"
    using is_linebreak_LF by auto
  then have "render ls = unlines ls" using n False by (simp add: render_unlines)
  then show ?thesis using nl False by (simp add: splitlines_unlines chop_def)
qed

lemma indent_of_takeWhile: "indent_of l = takeWhile is_space l"
proof -
  have "length l - length (dropWhile is_space l) = length (takeWhile is_space l)"
    by (metis add_diff_cancel_right' length_append takeWhile_dropWhile_id)
  then have "indent_of l = take (length (takeWhile is_space l)) l"
    by (simp add: indent_of_def lstrip_def)
  also have "\<dots> = take (length (takeWhile is_space l)) (takeWhile is_space l @ dropWhile is_space l)"
    by (simp only: takeWhile_dropWhile_id)
  also have "\<dots> = takeWhile is_space l" by (simp del: takeWhile_dropWhile_id)
  finally show ?thesis .
qed

lemma not_space_quote: "\<not> is_space (CHR 0x22)" "\<not> is_linebreak (CHR 0x22)"
  "is_space (CHR '' '')" "\<not> is_linebreak (CHR '' '')" "\<not> is_linebreak (CHR ''='')"
  by (simp_all add: is_space_def is_linebreak_def)

lemma assignment_line_shape:
  assumes k: "well_formed_key k" and ind: "\<forall>c\<in>set ind. is_space c"
  shows "assigns k (ind @ assignment_line k v)" and "indent_of (ind @ assignment_line k v) = ind"
proof -
  obtain a k' where ak: "k = a # k'" using k by (cases k) (auto simp: well_formed_key_def)
  have a: "\<not> is_space a" "a \<noteq> CHR ''#''" using k ak by (simp_all add: well_formed_key_def)
  let ?rest = "'' = '' @ [CHR 0x22] @ v @ [CHR 0x22]"
  let ?line = "ind @ assignment_line k v"
  have line: "?line = ind @ a # (k' @ ?rest)" by (simp add: assignment_line_def ak)
  have l: "lstrip ?line = k @ ?rest"
    unfolding line lstrip_def using ind a(1) by (simp add: dropWhile_append3 ak)
  have "rstrip (k @ ?rest) = k @ ?rest"
    by (simp add: rstrip_def not_space_quote)
  then have s: "strip ?line = k @ ?rest" by (simp add: strip_def l)
  have tw: "takeWhile (\<lambda>c. c \<noteq> CHR ''='') (k @ ?rest) = k @ '' ''"
    using k by (simp add: takeWhile_append well_formed_key_def takeWhile_eq_all_conv[THEN iffD2])
  have "lstrip (k @ '' '') = k @ '' ''" using a by (simp add: lstrip_def ak)
  moreover have "rstrip (k @ '' '') = k"
  proof -
    have "rev k \<noteq> []" "\<not> is_space (hd (rev k))" using k by (simp_all add: well_formed_key_def hd_rev)
    then have "dropWhile is_space (rev k) = rev k" by (cases "rev k") auto
    then show ?thesis by (simp add: rstrip_def not_space_quote)
  qed
  ultimately have "strip (k @ '' '') = k" by (simp add: strip_def)
  moreover have "\<not> startswith (k @ ?rest) ''#''" using a by (simp add: startswith_def ak)
  ultimately show "assigns k ?line"
    using tw by (simp add: assigns_def s split1_def Let_def)
  show "indent_of ?line = ind"
    unfolding indent_of_takeWhile line using ind a(1) by (simp add: takeWhile_append)
qed

lemma indent_all_space: "\<forall>c\<in>set (indent_of l). is_space c"
  by (auto simp: indent_of_takeWhile dest: set_takeWhileD)

lemma assignment_line_no_linebreak:
  "no_linebreak k \<Longrightarrow> no_linebreak v \<Longrightarrow> no_linebreak (assignment_line k v)"
  by (auto simp: no_linebreak_def assignment_line_def not_space_quote)

lemma replace_first_at:
  "\<forall>x\<in>set pre. \<not> assigns k x \<Longrightarrow> assigns k l \<Longrightarrow>
   replace_first k nl (pre @ l # post) = Some (pre @ (indent_of l @ nl) # post)"
  by (induction pre) simp_all

lemma splitlines_lines_no_linebreak: "\<forall>l\<in>set (splitlines s). no_linebreak l"
  by (auto simp: no_linebreak_def dest: splitlines_no_linebreak)

lemma chop_mid: "x \<noteq> [] \<Longrightarrow> chop (pre @ x # post) = pre @ x # chop post"
  by (simp add: chop_def butlast_append)

lemma chop_restore: "\<exists>n\<le>1. chop zs @ replicate n [] = zs"
proof (cases "zs \<noteq> [] \<and> last zs = []")
  case True
  then have "butlast zs @ replicate 1 [] = zs"
    using append_butlast_last_id[of zs] by simp
  then show ?thesis using True unfolding chop_def by (intro exI[of _ 1]) simp
next
  case False
  then show ?thesis unfolding chop_def by (intro exI[of _ 0]) auto
qed

lemma filter_chop: "\<not> P [] \<Longrightarrow> filter P (chop zs) = filter P zs"
proof -
  assume p: "\<not> P []"
  obtain n where "chop zs @ replicate n [] = zs" using chop_restore by blast
  then have "filter P zs = filter P (chop zs) @ filter P (replicate n [])"
    by (metis filter_append)
  moreover have "filter P (replicate n []) = []" using p by (induction n) simp_all
  ultimately show ?thesis by simp
qed

lemma not_assigns_empty: "\<not> assigns k []"
  using assigns_nonempty by blast

lemma upsert_lines_present:
  assumes ls: "splitlines T = pre @ l # post" and pre: "\<forall>x\<in>set pre. \<not> assigns K x"
    and l: "assigns K l" and nb: "no_linebreak K" "no_linebreak V"
  shows "splitlines (set_tfvar_value T K V) = pre @ (indent_of l @ assignment_line K V) # chop post"
proof -
  let ?x = "indent_of l @ assignment_line K V"
  have "replace_first K (assignment_line K V) (splitlines T) = Some (pre @ ?x # post)"
    unfolding ls using pre l by (rule replace_first_at)
  then have r: "set_tfvar_value T K V = render (pre @ ?x # post)"
    by (simp add: set_tfvar_value_render)
  have all: "\<forall>x\<in>set (splitlines T). no_linebreak x" by (rule splitlines_lines_no_linebreak)
  then have "no_linebreak l" using ls by simp
  then have "no_linebreak (indent_of l)"
    by (auto simp: no_linebreak_def indent_of_takeWhile dest: set_takeWhileD)
  then have "no_linebreak ?x"
    using assignment_line_no_linebreak[OF nb] by (auto simp: no_linebreak_def)
  then have nl: "\<forall>x\<in>set (pre @ ?x # post). no_linebreak x" using all ls by auto
  have x: "?x \<noteq> []" by (simp add: assignment_line_last)
  then have "\<exists>y\<in>set (pre @ ?x # post). y \<noteq> []" by auto
  with nl have "splitlines (render (pre @ ?x # post)) = chop (pre @ ?x # post)"
    by (rule splitlines_render)
  then show ?thesis using r x by (simp add: chop_mid)
qed

lemma upsert_lines_absent:
  assumes a: "\<forall>x\<in>set (splitlines T). \<not> assigns K x" and nb: "no_linebreak K" "no_linebreak V"
  shows "splitlines (set_tfvar_value T K V) = splitlines T @ [assignment_line K V]"
proof -
  let ?ls = "splitlines T @ [assignment_line K V]"
  have "set_tfvar_value T K V = unlines ?ls"
    using set_tfvar_value_absent[OF a, of V] by (simp add: unlines_def)
  moreover have "\<forall>l\<in>set ?ls. no_linebreak l"
    using splitlines_lines_no_linebreak[of T] assignment_line_no_linebreak[OF nb] by auto
  ultimately show ?thesis by (simp add: splitlines_unlines)
qed

lemma double_upsert_absent:
  assumes k: "well_formed_key K" and v: "no_linebreak V1" "no_linebreak V2"
    and a: "\<forall>x\<in>set (splitlines T). \<not> assigns K x"
  shows "splitlines (set_tfvar_value (set_tfvar_value T K V1) K V2) = splitlines T @ [assignment_line K V2]"
proof -
  have nb: "no_linebreak K" using k by (simp add: well_formed_key_def)
  have sh: "assigns K (assignment_line K V1)" "indent_of (assignment_line K V1) = []"
    using assignment_line_shape[OF k, of "[]" V1] by simp_all
  have "splitlines (set_tfvar_value T K V1) = splitlines T @ assignment_line K V1 # []"
    using upsert_lines_absent[OF a nb v(1)] by simp
  from upsert_lines_present[OF this a sh(1) nb v(2)] show ?thesis
    by (simp add: sh(2) chop_def)
qed

lemma double_upsert_present:
  assumes k: "well_formed_key K" and v: "no_linebreak V1" "no_linebreak V2"
    and ls: "splitlines T = pre @ l # post" and pre: "\<forall>x\<in>set pre. \<not> assigns K x" and l: "assigns K l"
  shows "splitlines (set_tfvar_value (set_tfvar_value T K V1) K V2) =
           pre @ (indent_of l @ assignment_line K V2) # chop (chop post)"
proof -
  have nb: "no_linebreak K" using k by (simp add: well_formed_key_def)
  have sh: "assigns K (indent_of l @ assignment_line K V1)"
    "indent_of (indent_of l @ assignment_line K V1) = indent_of l"
    using assignment_line_shape[OF k indent_all_space, of l V1] by simp_all
  note one = upsert_lines_present[OF ls pre l nb v(1)]
  from upsert_lines_present[OF one pre sh(1) nb v(2)] show ?thesis
    by (simp add: sh(2))
qed

lemma trailing_empty_snoc_empty: "trailing_empty (xs @ [[]]) = Suc (trailing_empty xs)"
  by (simp add: trailing_empty_def)

lemma trailing_empty_last: "xs \<noteq> [] \<Longrightarrow> last xs \<noteq> [] \<Longrightarrow> trailing_empty xs = 0"
  by (cases xs rule: rev_cases) (simp_all add: trailing_empty_def)

lemma trailing_empty_Nil: "trailing_empty [] = 0"
  by (simp add: trailing_empty_def)

lemma chop_one: "chop ls = without_trailing_empty 1 ls"
proof (cases ls rule: rev_cases)
  case Nil
  then show ?thesis by (simp add: chop_def without_trailing_empty_def)
next
  case (snoc xs x)
  show ?thesis
  proof (cases "x = []")
    case True
    then show ?thesis using snoc
      by (simp add: chop_def without_trailing_empty_def trailing_empty_snoc_empty)
  next
    case False
    then have "trailing_empty ls = 0" using snoc by (simp add: trailing_empty_last)
    then show ?thesis using snoc False by (simp add: chop_def without_trailing_empty_def)
  qed
qed

lemma chop_chop: "chop (chop ls) = without_trailing_empty 2 ls"
proof (cases ls rule: rev_cases)
  case Nil
  then show ?thesis by (simp add: chop_def without_trailing_empty_def)
next
  case (snoc xs x)
  show ?thesis
  proof (cases "x = []")
    case True
    then have c: "chop ls = xs" using snoc by (simp add: chop_def)
    have "chop xs = without_trailing_empty 1 xs" by (rule chop_one)
    then show ?thesis using snoc True c
      by (simp add: without_trailing_empty_def trailing_empty_snoc_empty min_def split: if_splits)
  next
    case False
    then have "trailing_empty ls = 0" using snoc by (simp add: trailing_empty_last)
    then show ?thesis using snoc False by (simp add: chop_def without_trailing_empty_def)
  qed
qed

lemma render_chop:
  assumes nl: "\<forall>l\<in>set ls. no_linebreak l" and ne: "\<exists>l\<in>set ls. l \<noteq> []"
  shows "render ls = unlines (chop ls)"
proof (cases "last ls = []")
  case True
  from ne have "ls \<noteq> []" by auto
  then obtain xs where xs: "ls = xs @ [[]]"
    using True by (metis append_butlast_last_id)
  with ne have "xs \<noteq> []" by auto
  then have "render ls = unlines xs" unfolding xs by (rule render_unlines_empty_last)
  then show ?thesis using xs by (simp add: chop_def)
next
  case False
  from ne have n: "ls \<noteq> []" by auto
  then have "last ls \<in> set ls" by simp
  then have "no_linebreak (last ls)" using nl by blast
  moreover have "last (last ls) \<in> set (last ls)" using False by simp
  ultimately have "\<not> is_linebreak (last (last ls))" by (simp add: no_linebreak_def)
  then have "last (last ls) \<noteq> LF"
    using is_linebreak_LF by auto
  then have "render ls = unlines ls" using n False by (simp add: render_unlines)
  then show ?thesis using False by (simp add: chop_def)
qed

lemma set_tfvar_value_lines_clean:
  assumes nb: "no_linebreak K" "no_linebreak V"
  shows "\<exists>ls. set_tfvar_value T K V = render ls \<and> (\<forall>l\<in>set ls. no_linebreak l) \<and> (\<exists>l\<in>set ls. l \<noteq> [])"
proof (cases "replace_first K (assignment_line K V) (splitlines T)")
  case None
  let ?ls = "splitlines T @ [assignment_line K V]"
  have "set_tfvar_value T K V = render ?ls" using None by (simp add: set_tfvar_value_render)
  moreover have "\<forall>l\<in>set ?ls. no_linebreak l"
    using splitlines_lines_no_linebreak[of T] assignment_line_no_linebreak[OF nb] by auto
  moreover have "\<exists>l\<in>set ?ls. l \<noteq> []" by (simp add: assignment_line_last)
  ultimately show ?thesis by blast
next
  case (Some r)
  then obtain pre l post where
    ls: "splitlines T = pre @ l # post" and l: "assigns K l" and
    r: "r = pre @ (indent_of l @ assignment_line K V) # post"
    by (blast dest: replace_first_Some)
  let ?x = "indent_of l @ assignment_line K V"
  have all: "\<forall>x\<in>set (splitlines T). no_linebreak x" by (rule splitlines_lines_no_linebreak)
  then have "no_linebreak l" using ls by simp
  then have "no_linebreak (indent_of l)"
    by (auto simp: no_linebreak_def indent_of_takeWhile dest: set_takeWhileD)
  then have "no_linebreak ?x"
    using assignment_line_no_linebreak[OF nb] by (auto simp: no_linebreak_def)
  then have nl: "\<forall>x\<in>set r. no_linebreak x" using all ls r by auto
  have "?x \<noteq> []" by (simp add: assignment_line_last)
  then have "\<exists>y\<in>set r. y \<noteq> []" using r by auto
  moreover have "set_tfvar_value T K V = render r" using Some by (simp add: set_tfvar_value_render)
  ultimately show ?thesis using nl by blast
qed

lemma set_tfvar_value_unlines:
  assumes nb: "no_linebreak K" "no_linebreak V"
  shows "set_tfvar_value T K V = unlines (splitlines (set_tfvar_value T K V))"
proof -
  from set_tfvar_value_lines_clean[OF nb, of T] obtain ls where
    r: "set_tfvar_value T K V = render ls" and nl: "\<forall>l\<in>set ls. no_linebreak l" and ne: "\<exists>l\<in>set ls. l \<noteq> []"
    by blast
  have "render ls = unlines (chop ls)" using nl ne by (rule render_chop)
  moreover have "splitlines (render ls) = chop ls" using nl ne by (rule splitlines_render)
  ultimately show ?thesis using r by simp
qed

lemma first_split:
  assumes "\<forall>x\<in>set pre. \<not> P x" "P l"
  shows "takeWhile (\<lambda>x. \<not> P x) (pre @ l # post) = pre" "dropWhile (\<lambda>x. \<not> P x) (pre @ l # post) = l # post"
  using assms by (simp_all add: takeWhile_append dropWhile_append)












lemmas str_eval = set_tfvar_value_def splitlines_def assigns_def strip_def lstrip_def rstrip_def
  is_space_def is_linebreak_def LF_def CR_def startswith_def endswith_def split1_def
  indent_of_def assignment_line_def

text \<open>
  Claim C1, as amended. For a well-formed key and values without line boundaries, the text
  after two successive calls of \<open>_set_tfvar_value\<close> on the same key is fixed line by line.
  When no line of the input assigns the key, it is the lines of the input, all of them and in
  their order, followed by the one new line with the second value. Otherwise it is the lines
  before the first assigning line, unchanged; in the place of that line the new assignment
  with the second value and the indentation of that line; and the lines after it, unchanged
  (later assignments of the key among them), except that the empty lines at the very end of
  the input are removed, at most two of them. Every line of the result ends with one
  newline. So exactly one line assigns the key when at most one line of the input did.
\<close>

theorem set_tfvar_value_supersedes:
  assumes k: "well_formed_key K" and v: "no_linebreak V1" "no_linebreak V2"
  shows "set_tfvar_value (set_tfvar_value T K V1) K V2 =
           unlines
             (case dropWhile (\<lambda>l. \<not> assigns K l) (splitlines T) of
                [] \<Rightarrow> splitlines T @ [assignment_line K V2]
              | l # post \<Rightarrow>
                  takeWhile (\<lambda>l. \<not> assigns K l) (splitlines T)
                  @ (indent_of l @ assignment_line K V2) # without_trailing_empty 2 post)
         \<and> splitlines (set_tfvar_value (set_tfvar_value T K V1) K V2) =
             (case dropWhile (\<lambda>l. \<not> assigns K l) (splitlines T) of
                [] \<Rightarrow> splitlines T @ [assignment_line K V2]
              | l # post \<Rightarrow>
                  takeWhile (\<lambda>l. \<not> assigns K l) (splitlines T)
                  @ (indent_of l @ assignment_line K V2) # without_trailing_empty 2 post)
         \<and> filter (assigns K) (splitlines (set_tfvar_value (set_tfvar_value T K V1) K V2)) =
             (case dropWhile (\<lambda>l. \<not> assigns K l) (splitlines T) of
                [] \<Rightarrow> [assignment_line K V2]
              | l # post \<Rightarrow> (indent_of l @ assignment_line K V2) # filter (assigns K) post)"
proof -
  let ?R = "set_tfvar_value (set_tfvar_value T K V1) K V2"
  let ?L = "case dropWhile (\<lambda>l. \<not> assigns K l) (splitlines T) of
                [] \<Rightarrow> splitlines T @ [assignment_line K V2]
              | l # post \<Rightarrow>
                  takeWhile (\<lambda>l. \<not> assigns K l) (splitlines T)
                  @ (indent_of l @ assignment_line K V2) # without_trailing_empty 2 post"
  have nb: "no_linebreak K" using k by (simp add: well_formed_key_def)
  have lines: "splitlines ?R = ?L \<and> filter (assigns K) (splitlines ?R) =
             (case dropWhile (\<lambda>l. \<not> assigns K l) (splitlines T) of
                [] \<Rightarrow> [assignment_line K V2]
              | l # post \<Rightarrow> (indent_of l @ assignment_line K V2) # filter (assigns K) post)"
  proof (cases "\<exists>x\<in>set (splitlines T). assigns K x")
    case False
    then have a: "\<forall>x\<in>set (splitlines T). \<not> assigns K x" by blast
    then have d: "dropWhile (\<lambda>l. \<not> assigns K l) (splitlines T) = []" by simp
    have sh: "assigns K (assignment_line K V2)"
      using assignment_line_shape(1)[OF k, of "[]" V2] by simp
    have f: "filter (assigns K) (splitlines T) = []" using a by (simp add: filter_empty_conv)
    show ?thesis unfolding double_upsert_absent[OF k v a] d using sh f by simp
  next
    case True
    then obtain pre l post where ls: "splitlines T = pre @ l # post" and l: "assigns K l"
      and pre: "\<forall>x\<in>set pre. \<not> assigns K x"
      using split_list_first_prop[of "splitlines T" "assigns K"] by blast
    have sh: "assigns K (indent_of l @ assignment_line K V2)"
      using assignment_line_shape(1)[OF k indent_all_space, of l V2] by simp
    have fp: "filter (assigns K) pre = []" using pre by (simp add: filter_empty_conv)
    have c: "filter (assigns K) (chop (chop post)) = filter (assigns K) post"
      by (simp add: filter_chop not_assigns_empty)
    note fs = first_split[of pre "assigns K" l post, OF pre l]
    show ?thesis
      unfolding double_upsert_present[OF k v ls pre l] ls fs
      using sh fp c by (simp add: chop_chop)
  qed
  then have l1: "splitlines ?R = ?L" and l2: "filter (assigns K) (splitlines ?R) =
             (case dropWhile (\<lambda>l. \<not> assigns K l) (splitlines T) of
                [] \<Rightarrow> [assignment_line K V2]
              | l # post \<Rightarrow> (indent_of l @ assignment_line K V2) # filter (assigns K) post)"
    by blast+
  have t: "?R = unlines (splitlines ?R)" using nb v(2) by (rule set_tfvar_value_unlines)
  have "?R = unlines ?L" by (rule trans[OF t]) (simp only: l1)
  then show ?thesis using l1 l2 by (intro conjI)
qed

theorem set_tfvar_value_supersedes_witness:
  "well_formed_key ''k'' \<and> no_linebreak ''x'' \<and> no_linebreak ''y''
   \<and> set_tfvar_value (set_tfvar_value (''a = 1'' @ [LF] @ ''  k = 0'' @ [LF] @ ''# note'' @ [LF, LF, LF, LF]) ''k'' ''x'') ''k'' ''y'' =
       ''a = 1'' @ [LF] @ ''  k = '' @ [CHR 0x22] @ ''y'' @ [CHR 0x22] @ [LF] @ ''# note'' @ [LF, LF]
   \<and> splitlines (set_tfvar_value (set_tfvar_value (''a = 1'' @ [LF] @ ''  k = 0'' @ [LF] @ ''# note'' @ [LF, LF, LF, LF]) ''k'' ''x'') ''k'' ''y'') =
       [''a = 1'', ''  k = '' @ [CHR 0x22] @ ''y'' @ [CHR 0x22], ''# note'', []]
   \<and> filter (assigns ''k'')
       (splitlines (set_tfvar_value (set_tfvar_value (''a = 1'' @ [LF] @ ''  k = 0'' @ [LF] @ ''# note'' @ [LF, LF, LF, LF]) ''k'' ''x'') ''k'' ''y'')) =
       [''  k = '' @ [CHR 0x22] @ ''y'' @ [CHR 0x22]]"
proof -
  have k: "well_formed_key ''k''" by (simp add: well_formed_key_def no_linebreak_def is_space_def is_linebreak_def)
  have x: "no_linebreak ''x''" and y: "no_linebreak ''y''" by (simp_all add: no_linebreak_def is_linebreak_def)
  have f: "splitlines (''a = 1'' @ [LF] @ ''  k = 0'' @ [LF] @ ''# note'' @ [LF, LF, LF, LF]) =
             [''a = 1'', ''  k = 0'', ''# note'', [], [], []]"
    by (simp add: str_eval)
  have a: "\<not> assigns ''k'' ''a = 1''" "assigns ''k'' ''  k = 0''" "\<not> assigns ''k'' ''# note''" "\<not> assigns ''k'' []"
    "indent_of ''  k = 0'' = ''  ''"
    by (simp_all add: str_eval)
  have w: "without_trailing_empty 2 [''# note'', [], [], []] = [''# note'', []]"
    by (simp add: without_trailing_empty_def trailing_empty_def)
  note th = set_tfvar_value_supersedes[OF k x y, of "''a = 1'' @ [LF] @ ''  k = 0'' @ [LF] @ ''# note'' @ [LF, LF, LF, LF]",
      unfolded f]
  have 1: "set_tfvar_value (set_tfvar_value (''a = 1'' @ [LF] @ ''  k = 0'' @ [LF] @ ''# note'' @ [LF, LF, LF, LF]) ''k'' ''x'') ''k'' ''y'' =
       ''a = 1'' @ [LF] @ ''  k = '' @ [CHR 0x22] @ ''y'' @ [CHR 0x22] @ [LF] @ ''# note'' @ [LF, LF]"
    using th[THEN conjunct1] by (simp add: a w assignment_line_def unlines_def)
  have 2: "splitlines (set_tfvar_value (set_tfvar_value (''a = 1'' @ [LF] @ ''  k = 0'' @ [LF] @ ''# note'' @ [LF, LF, LF, LF]) ''k'' ''x'') ''k'' ''y'') =
       [''a = 1'', ''  k = '' @ [CHR 0x22] @ ''y'' @ [CHR 0x22], ''# note'', []]"
    using th[THEN conjunct2, THEN conjunct1] by (simp add: a w assignment_line_def)
  have 3: "filter (assigns ''k'')
       (splitlines (set_tfvar_value (set_tfvar_value (''a = 1'' @ [LF] @ ''  k = 0'' @ [LF] @ ''# note'' @ [LF, LF, LF, LF]) ''k'' ''x'') ''k'' ''y'')) =
       [''  k = '' @ [CHR 0x22] @ ''y'' @ [CHR 0x22]]"
    using th[THEN conjunct2, THEN conjunct2] by (simp add: a assignment_line_def)
  show ?thesis using k x y 1 2 3 by (intro conjI)
qed

text \<open>
  The claim as the specification states it fails: with the key assigned twice in the input,
  two lines assign it after the second call, the later one still with its old value; and an
  input that ends with blank lines loses them.
\<close>

theorem set_tfvar_value_double_counterexample:
  "filter (assigns ''k'')
     (splitlines (set_tfvar_value (set_tfvar_value (''k = 1'' @ [LF] @ ''k = 2'') ''k'' ''x'') ''k'' ''y'')) =
     [''k = '' @ [CHR 0x22] @ ''y'' @ [CHR 0x22], ''k = 2'']
   \<and> filter (\<lambda>l. \<not> assigns ''k'' l) (splitlines (''k = 1'' @ [LF, LF, LF])) = ['''', '''']
   \<and> filter (\<lambda>l. \<not> assigns ''k'' l)
       (splitlines (set_tfvar_value (set_tfvar_value (''k = 1'' @ [LF, LF, LF]) ''k'' ''x'') ''k'' ''y'')) = []"
  by (simp add: str_eval)

text \<open>
  Claim C2, as amended. The result of \<open>_set_tfvar_value\<close> always ends with a newline. When no
  line of the input assigns the key, the result is the lines of the input, each ended by a
  newline, followed by the one new line \<open>key = "value"\<close> and a single newline. When a line
  assigns the key, the result ends with as many newlines as the input has empty lines at its
  end, and with one when it has none.
\<close>

theorem set_tfvar_value_append_newline:
  "endswith (set_tfvar_value content key val) [LF]
   \<and> trailing_newlines (set_tfvar_value content key val) =
       (if \<forall>l\<in>set (splitlines content). \<not> assigns key l then 1
        else max 1 (trailing_empty (splitlines content)))
   \<and> ((\<forall>l\<in>set (splitlines content). \<not> assigns key l) \<longrightarrow>
        set_tfvar_value content key val = unlines (splitlines content) @ assignment_line key val @ [LF])"
proof (intro conjI impI)
  show "endswith (set_tfvar_value content key val) [LF]"
    by (simp add: set_tfvar_value_def Let_def endswith_single)
  show "trailing_newlines (set_tfvar_value content key val) =
       (if \<forall>l\<in>set (splitlines content). \<not> assigns key l then 1
        else max 1 (trailing_empty (splitlines content)))"
    by (rule set_tfvar_value_trailing)
  show "set_tfvar_value content key val = unlines (splitlines content) @ assignment_line key val @ [LF]"
    if "\<forall>l\<in>set (splitlines content). \<not> assigns key l"
    using that by (rule set_tfvar_value_absent)
qed

theorem set_tfvar_value_append_newline_witness:
  "(\<forall>l\<in>set (splitlines ''a = 1''). \<not> assigns ''k'' l) = True
   \<and> set_tfvar_value ''a = 1'' ''k'' ''v'' = ''a = 1'' @ [LF] @ ''k = '' @ [CHR 0x22] @ ''v'' @ [CHR 0x22] @ [LF]
   \<and> trailing_newlines (set_tfvar_value ''a = 1'' ''k'' ''v'') = 1
   \<and> endswith (set_tfvar_value ''a = 1'' ''k'' ''v'') [LF]"
proof -
  have a: "\<forall>l\<in>set (splitlines ''a = 1''). \<not> assigns ''k'' l"
    by (simp add: str_eval)
  have u: "unlines (splitlines ''a = 1'') = ''a = 1'' @ [LF]"
    by (simp add: unlines_def str_eval)
  from set_tfvar_value_append_newline[of "''a = 1''" "''k''" "''v''"] a u
  show ?thesis by (simp add: assignment_line_def trailing_newlines_def endswith_def LF_def)
qed

text \<open>
  The claim as the specification states it fails: an input that assigns the key and ends with
  three newlines gives a result that ends with two.
\<close>

theorem set_tfvar_value_newline_counterexample:
  "set_tfvar_value (''k = 1'' @ [LF, LF, LF]) ''k'' ''v'' = ''k = '' @ [CHR 0x22] @ ''v'' @ [CHR 0x22] @ [LF, LF]
   \<and> trailing_newlines (set_tfvar_value (''k = 1'' @ [LF, LF, LF]) ''k'' ''v'') = 2"
  by (simp add: str_eval trailing_newlines_def)

section \<open>Token Registry: proofs\<close>

lemma map_of_update_same: "map_of (AList.update k v al) k = Some v"
  by (simp add: update_conv')

lemma keys_update_existing: "has_key al k \<Longrightarrow> map fst (AList.update k v al) = map fst al"
  by (simp add: has_key_def update_keys)

lemmas token_eval = update_tokens_def remove_items_def store_generated_def generate_numbered_def
  parse_name_value_def validate_component_def has_key_def gen_name_def isdigit_def is_decimal_def
  int_of_digits_def digit_value_def digit_char_def split1_def strip_def lstrip_def rstrip_def is_space_def
  valid_names_def

lemma digit_value_digit_char: "d < 10 \<Longrightarrow> digit_value (digit_char d) = d"
proof -
  assume "d < 10"
  then have "d \<in> set [0, 1, 2, 3, 4, 5, 6, 7, 8, 9]" by auto
  then show ?thesis by (auto simp: digit_value_def digit_char_def)
qed

lemma decode_str_nat: "foldl (\<lambda>n c. 10 * n + digit_value c) 0 (str_nat n) = n"
proof (induction n rule: str_nat.induct)
  case (1 n)
  show ?case
  proof (cases "n < 10")
    case True
    then show ?thesis by (simp add: str_nat.simps digit_value_digit_char)
  next
    case False
    have "foldl (\<lambda>n c. 10 * n + digit_value c) 0 (str_nat n) =
        10 * foldl (\<lambda>n c. 10 * n + digit_value c) 0 (str_nat (n div 10)) + digit_value (digit_char (n mod 10))"
      using False by (subst str_nat.simps) simp
    then show ?thesis using 1 False by (simp add: digit_value_digit_char)
  qed
qed

lemma inj_str_nat: "inj str_nat"
  by (rule inj_on_inverseI[where g = "foldl (\<lambda>n c. 10 * n + digit_value c) 0"]) (rule decode_str_nat)

lemma gen_name_eq: "gen_name a = gen_name b \<longleftrightarrow> a = b"
  using inj_str_nat by (auto simp: gen_name_def inj_def)

lemma next_free_props:
  "suffix \<le> next_free toks suffix \<and> \<not> has_key toks (gen_name (next_free toks suffix))
   \<and> (\<forall>k. suffix \<le> k \<and> k < next_free toks suffix \<longrightarrow> has_key toks (gen_name k))"
proof (induction toks suffix rule: next_free.induct)
  case (1 toks suffix)
  show ?case
  proof (cases "has_key toks (gen_name suffix)")
    case True
    then have eq: "next_free toks suffix = next_free toks (suffix + 1)"
      by (subst next_free.simps) simp
    have "\<forall>k. suffix \<le> k \<and> k < next_free toks (suffix + 1) \<longrightarrow> has_key toks (gen_name k)"
    proof (intro allI impI)
      fix k assume k: "suffix \<le> k \<and> k < next_free toks (suffix + 1)"
      show "has_key toks (gen_name k)"
      proof (cases "k = suffix")
        case True
        then show ?thesis using \<open>has_key toks (gen_name suffix)\<close> by simp
      next
        case False
        then have "suffix + 1 \<le> k" using k by simp
        then show ?thesis using "1.IH"[OF True] k by blast
      qed
    qed
    then show ?thesis using "1.IH"[OF True] unfolding eq by simp
  next
    case False
    then have "next_free toks suffix = suffix" by (subst next_free.simps) simp
    then show ?thesis using False by auto
  qed
qed

lemma update_fresh: "\<not> has_key al k \<Longrightarrow> AList.update k v al = al @ [(k, v)]"
  by (induction al) (auto simp: has_key_def)

lemma has_key_append: "has_key (a @ b) k \<longleftrightarrow> has_key a k \<or> has_key b k"
  by (auto simp: has_key_def)

lemma increasing_length:
  "sorted_wrt (<) ks \<Longrightarrow> \<forall>k\<in>set ks. 1 \<le> k \<and> k < j \<Longrightarrow> 1 \<le> j \<Longrightarrow> length ks < (j::nat)"
proof -
  assume s: "sorted_wrt (<) ks" and b: "\<forall>k\<in>set ks. 1 \<le> k \<and> k < j" and j: "1 \<le> j"
  have "distinct ks" using s by (simp add: strict_sorted_iff)
  then have "length ks = card (set ks)" by (simp add: distinct_card)
  also have "\<dots> \<le> card {1..<j}" using b by (intro card_mono) auto
  finally have "length ks \<le> j - 1" by simp
  then show ?thesis using j by simp
qed

lemma generate_numbered_Suc:
  "generate_numbered rng (Suc n) st =
     (let st' = generate_numbered rng n st
      in store_generated rng (gen_name (next_free (tokens st') (n + 1))) st')"
  by (simp add: generate_numbered_def Let_def)

lemma generate_numbered_inv:
  "\<exists>ks added. length ks = n \<and> smallest_unused toks ks \<and> map fst added = map gen_name ks
     \<and> tokens (generate_numbered rng n \<lparr>tokens = toks, generated = [], drawn = 0\<rparr>) = toks @ added
     \<and> generated (generate_numbered rng n \<lparr>tokens = toks, generated = [], drawn = 0\<rparr>) = added"
proof (induction n)
  case 0
  show ?case
    by (intro exI[of _ "[]"]) (simp add: generate_numbered_def smallest_unused_def)
next
  case (Suc n)
  let ?st = "generate_numbered rng n \<lparr>tokens = toks, generated = [], drawn = 0\<rparr>"
  from Suc obtain ks added where len: "length ks = n" and su: "smallest_unused toks ks"
    and names: "map fst added = map gen_name ks" and t: "tokens ?st = toks @ added"
    and g: "generated ?st = added"
    by blast
  let ?s = "next_free (tokens ?st) (n + 1)"
  have key: "has_key (tokens ?st) (gen_name k) \<longleftrightarrow> has_key toks (gen_name k) \<or> k \<in> set ks" for k
  proof -
    have "has_key added (gen_name k) \<longleftrightarrow> k \<in> set ks"
      unfolding has_key_def names by (auto simp: gen_name_eq)
    then show ?thesis by (simp add: t has_key_append)
  qed
  note nf = next_free_props[of "n + 1" "tokens ?st"]
  have s1: "n + 1 \<le> ?s" using nf by blast
  have sfree: "\<not> has_key toks (gen_name ?s)" "?s \<notin> set ks" using nf key by blast+
  have below: "has_key toks (gen_name k) \<or> k \<in> set ks" if "n + 1 \<le> k" "k < ?s" for k
    using nf key that by blast
  have above: "\<forall>k\<in>set ks. k < ?s"
    using su sfree s1 unfolding smallest_unused_def by auto
  have su': "smallest_unused toks (ks @ [?s])"
    unfolding smallest_unused_def
  proof (intro conjI allI impI ballI)
    show "sorted_wrt (<) (ks @ [?s])"
      using su above by (simp add: smallest_unused_def sorted_wrt_append)
  next
    fix k assume "k \<in> set (ks @ [?s])"
    then show "1 \<le> k" "\<not> has_key toks (gen_name k)"
      using su sfree s1 by (auto simp: smallest_unused_def)
  next
    fix j k assume j: "1 \<le> j \<and> \<not> has_key toks (gen_name j) \<and> j \<notin> set (ks @ [?s])"
      and k: "k \<in> set (ks @ [?s])"
    have jk: "\<forall>k\<in>set ks. k < j" using su j unfolding smallest_unused_def by auto
    moreover have "\<forall>k\<in>set ks. 1 \<le> k" using su unfolding smallest_unused_def by auto
    ultimately have "length ks < j" using su j increasing_length[of ks j]
      by (auto simp: smallest_unused_def)
    then have "n + 1 \<le> j" using len by simp
    then have "\<not> j < ?s" using below[of j] j by auto
    then have "?s < j" using j by auto
    then show "k < j" using k jk by auto
  qed
  have fresh: "\<not> has_key (tokens ?st) (gen_name ?s)" using nf by blast
  have fresh_g: "\<not> has_key (generated ?st) (gen_name ?s)"
    using fresh by (simp add: t g has_key_append)
  let ?new = "(gen_name ?s, rng (drawn ?st))"
  have "tokens (generate_numbered rng (Suc n) \<lparr>tokens = toks, generated = [], drawn = 0\<rparr>) = toks @ (added @ [?new])"
    "generated (generate_numbered rng (Suc n) \<lparr>tokens = toks, generated = [], drawn = 0\<rparr>) = added @ [?new]"
    using update_fresh[OF fresh] update_fresh[OF fresh_g] t g
    by (simp_all add: generate_numbered_Suc store_generated_def Let_def)
  moreover have "map fst (added @ [?new]) = map gen_name (ks @ [?s])" using names by simp
  moreover have "length (ks @ [?s]) = Suc n" using len by simp
  ultimately show ?case using su' by blast
qed

lemma int_of_digits_isdigit: "int_of_digits item = Some n \<Longrightarrow> isdigit item"
  by (auto simp: int_of_digits_def isdigit_def split: if_splits)

















text \<open>
  Claim C5. For a \<open>generate\<close> entry that is a decimal number \<open>n\<close>, \<open>manage_tokens\<close> adds \<open>n\<close>
  tokens whose names are \<open>generated-<k>\<close> for the \<open>n\<close> smallest suffixes \<open>k\<close> from 1 on that
  name no key of the token set, in increasing order; the token set is the old one, unchanged,
  followed by the generated entries.
\<close>

theorem generate_numbered_smallest_unused:
  assumes "int_of_digits item = Some n"
  shows "\<exists>ks st. update_tokens rng toks [] [] [item] = Inr st \<and> length ks = n \<and> smallest_unused toks ks
           \<and> map fst (generated st) = map gen_name ks \<and> tokens st = toks @ generated st"
proof -
  let ?st = "generate_numbered rng n \<lparr>tokens = toks, generated = [], drawn = 0\<rparr>"
  have "generate_items rng [item] \<lparr>tokens = toks, generated = [], drawn = 0\<rparr> = Inr ?st"
    using assms int_of_digits_isdigit[OF assms] by simp
  then have u: "update_tokens rng toks [] [] [item] = Inr ?st"
    by (simp add: update_tokens_def remove_items_def)
  from generate_numbered_inv[of n toks rng] obtain ks added where
    "length ks = n" "smallest_unused toks ks" "map fst added = map gen_name ks"
    "tokens ?st = toks @ added" "generated ?st = added"
    by blast
  then show ?thesis using u by (intro exI[of _ ks] exI[of _ ?st]) simp
qed

theorem generate_numbered_smallest_unused_witness:
  "int_of_digits ''3'' = Some 3
   \<and> (\<exists>ks st. update_tokens (\<lambda>n. ''t'' @ str_nat n) [(''generated-2'', ''v'')] [] [] [''3''] = Inr st
         \<and> length ks = 3 \<and> smallest_unused [(''generated-2'', ''v'')] ks
         \<and> map fst (generated st) = map gen_name ks
         \<and> tokens st = [(''generated-2'', ''v'')] @ generated st
         \<and> map fst (generated st) = [''generated-1'', ''generated-3'', ''generated-4''])"
proof -
  have h: "int_of_digits ''3'' = Some 3" by code_simp
  have e: "update_tokens (\<lambda>n. ''t'' @ str_nat n) [(''generated-2'', ''v'')] [] [] [''3''] =
     Inr \<lparr>tokens = [(''generated-2'', ''v''), (''generated-1'', ''t0''), (''generated-3'', ''t1''),
                     (''generated-4'', ''t2'')],
          generated = [(''generated-1'', ''t0''), (''generated-3'', ''t1''), (''generated-4'', ''t2'')],
          drawn = 3\<rparr>"
    by code_simp
  from generate_numbered_smallest_unused[OF h, of "\<lambda>n. ''t'' @ str_nat n" "[(''generated-2'', ''v'')]"]
  obtain ks st where
    st: "update_tokens (\<lambda>n. ''t'' @ str_nat n) [(''generated-2'', ''v'')] [] [] [''3''] = Inr st"
    and ks: "length ks = 3" "smallest_unused [(''generated-2'', ''v'')] ks"
      "map fst (generated st) = map gen_name ks" "tokens st = [(''generated-2'', ''v'')] @ generated st"
    by blast
  from st e have names: "map fst (generated st) = [''generated-1'', ''generated-3'', ''generated-4'']"
    by auto
  show ?thesis
    using h st ks names by - (intro conjI exI[of _ ks] exI[of _ st], assumption+)
qed

text \<open>
  Claim C9. An \<open>add\<close> entry whose name is already in the token set raises no error and
  replaces the value in place; so does one whose name was generated earlier in the same
  call. A \<open>generate\<close> entry that is not a number and whose name is already in the token
  set fails with \<open>TokenNameCollision\<close>, whatever is to be added or removed.
\<close>

theorem add_overwrites_generate_collides:
  "(has_key toks name \<and> parse_name_value entry = Inr (name, v) \<longrightarrow>
      (\<exists>st. update_tokens rng toks [entry] [] [] = Inr st \<and> tokens st = AList.update name v toks
            \<and> map_of (tokens st) name = Some v \<and> map fst (tokens st) = map fst toks))
   \<and> (\<not> isdigit item \<and> strip item = name \<and> name \<noteq> [] \<and> validate_component ''name'' name = Inr ()
        \<and> \<not> has_key toks name \<and> parse_name_value entry = Inr (name, v) \<longrightarrow>
      (\<exists>st. update_tokens rng toks [entry] [] [item] = Inr st \<and> generated st = [(name, rng 0)]
            \<and> map_of (tokens st) name = Some v))
   \<and> (valid_names toks \<and> \<not> isdigit item \<and> has_key toks (strip item) \<longrightarrow>
      update_tokens rng toks add remove [item] = Inl (TokenNameCollision (strip item)))"
proof (intro conjI impI)
  assume a: "has_key toks name \<and> parse_name_value entry = Inr (name, v)"
  then have "update_tokens rng toks [entry] [] [] =
      Inr \<lparr>tokens = AList.update name v toks, generated = [], drawn = 0\<rparr>"
    by (simp add: update_tokens_def remove_items_def)
  then show "\<exists>st. update_tokens rng toks [entry] [] [] = Inr st \<and> tokens st = AList.update name v toks
            \<and> map_of (tokens st) name = Some v \<and> map fst (tokens st) = map fst toks"
    using a by (simp add: map_of_update_same keys_update_existing)
next
  assume a: "\<not> isdigit item \<and> strip item = name \<and> name \<noteq> [] \<and> validate_component ''name'' name = Inr ()
        \<and> \<not> has_key toks name \<and> parse_name_value entry = Inr (name, v)"
  then have "generate_items rng [item] \<lparr>tokens = toks, generated = [], drawn = 0\<rparr> =
      Inr \<lparr>tokens = AList.update name (rng 0) toks, generated = [(name, rng 0)], drawn = 1\<rparr>"
    by (simp add: store_generated_def Let_def)
  then have "update_tokens rng toks [entry] [] [item] =
      Inr \<lparr>tokens = AList.update name v (AList.update name (rng 0) toks), generated = [(name, rng 0)], drawn = 1\<rparr>"
    using a by (simp add: update_tokens_def remove_items_def)
  then show "\<exists>st. update_tokens rng toks [entry] [] [item] = Inr st \<and> generated st = [(name, rng 0)]
            \<and> map_of (tokens st) name = Some v"
    by (simp add: map_of_update_same)
next
  assume a: "valid_names toks \<and> \<not> isdigit item \<and> has_key toks (strip item)"
  then have "strip item \<noteq> []" "validate_component ''name'' (strip item) = Inr ()"
    by (auto simp: valid_names_def has_key_def validate_component_def)
  then have "generate_items rng [item] \<lparr>tokens = toks, generated = [], drawn = 0\<rparr> =
      Inl (TokenNameCollision (strip item))"
    using a by (simp add: Let_def)
  then show "update_tokens rng toks add remove [item] = Inl (TokenNameCollision (strip item))"
    by (simp add: update_tokens_def)
qed

theorem add_overwrites_generate_collides_witness:
  "has_key [(''alice'', ''old'')] ''alice'' \<and> parse_name_value ''alice=new'' = Inr (''alice'', ''new'')
   \<and> valid_names [(''alice'', ''old'')] \<and> \<not> isdigit '' alice''
   \<and> (\<exists>st. update_tokens (\<lambda>n. ''secret'') [(''alice'', ''old'')] [''alice=new''] [] [] = Inr st
         \<and> tokens st = [(''alice'', ''new'')])
   \<and> (\<exists>st. update_tokens (\<lambda>n. ''secret'') [] [''alice=new''] [] ['' alice''] = Inr st
         \<and> generated st = [(''alice'', ''secret'')] \<and> map_of (tokens st) ''alice'' = Some ''new'')
   \<and> update_tokens (\<lambda>n. ''secret'') [(''alice'', ''old'')] [] [] ['' alice''] = Inl (TokenNameCollision ''alice'')"
proof -
  have h: "has_key [(''alice'', ''old'')] ''alice''" "parse_name_value ''alice=new'' = Inr (''alice'', ''new'')"
    "valid_names [(''alice'', ''old'')]" "\<not> isdigit '' alice''" "strip '' alice'' = ''alice''"
    "validate_component ''name'' ''alice'' = Inr ()" "\<not> has_key [] ''alice''"
    by (simp_all add: token_eval)
  from add_overwrites_generate_collides[of "[(''alice'', ''old'')]" "''alice''" "''alice=new''" "''new''" "\<lambda>n. ''secret''" "'' alice''" "[]" "[]"]
    add_overwrites_generate_collides[of "[]" "''alice''" "''alice=new''" "''new''" "\<lambda>n. ''secret''" "'' alice''" "[]" "[]"]
  show ?thesis using h by auto
qed

section \<open>Command Executor, Identity Resolver and registry endpoint: proofs\<close>

lemma readers_fold:
  "fold (reader_step echo) lns (out, err, written) =
     (out @ stream_lines Stdout lns, err @ stream_lines Stderr lns,
      written @ (if echo = Always then map (\<lambda>ln. Emit (fst ln) (snd ln)) lns else []))"
proof (induction lns arbitrary: out err written)
  case Nil
  then show ?case by (simp add: stream_lines_def)
next
  case (Cons ln lns)
  show ?case
  proof (cases "fst ln")
    case Stdout
    then have "reader_step echo ln (out, err, written) =
        (out @ [snd ln], err, written @ (if echo = Always then [Emit Stdout (snd ln)] else []))"
      by (simp add: reader_step_def)
    then show ?thesis using Stdout by (simp add: Cons stream_lines_def)
  next
    case Stderr
    then have "reader_step echo ln (out, err, written) =
        (out, err @ [snd ln], written @ (if echo = Always then [Emit Stderr (snd ln)] else []))"
      by (simp add: reader_step_def)
    then show ?thesis using Stderr by (simp add: Cons stream_lines_def)
  qed
qed

lemma readers_eq:
  "readers echo lns =
     (stream_lines Stdout lns, stream_lines Stderr lns,
      if echo = Always then map (\<lambda>ln. Emit (fst ln) (snd ln)) lns else [])"
  using readers_fold[of echo lns "[]" "[]" "[]"] by (simp add: readers_def)

lemma shown_append: "shown (xs @ ys) = shown xs @ shown ys"
  by (induction xs rule: shown.induct) simp_all

lemma shown_emits: "shown (map (Emit s) ls) = concat ls"
  by (induction ls) simp_all

lemma run_logged_capture_trace:
  "trace (snd (run_logged x cmd cwd True True check echo w)) =
     (let w1 = w\<lparr>trace := trace w @ [Log (''$ '' @ join '' '' cmd)]\<rparr>;
          p = spawn x cmd cwd w1
      in trace w1 @ [Exec cmd cwd]
         @ (if echo = Always then map (\<lambda>ln. Emit (fst ln) (snd ln)) (lines_out p) else [])
         @ [Exited (exit_code p)]
         @ (if echo = OnError \<and> exit_code p \<noteq> 0
            then map (Emit Stdout) (stream_lines Stdout (lines_out p))
                 @ map (Emit Stderr) (stream_lines Stderr (lines_out p))
            else []))"
  by (simp add: run_logged_def readers_eq Let_def)

lemma run_logged_capture_result:
  "fst (run_logged x cmd cwd True True True echo w) =
     (let w1 = w\<lparr>trace := trace w @ [Log (''$ '' @ join '' '' cmd)]\<rparr>;
          p = spawn x cmd cwd w1;
          out = concat (stream_lines Stdout (lines_out p));
          err = concat (stream_lines Stderr (lines_out p))
      in if exit_code p \<noteq> 0 then Inl (ProcessFailed cmd (exit_code p) (Some out) (Some err))
         else Inr \<lparr>args = cmd, returncode = exit_code p, stdout = Some out, stderr = Some err\<rparr>)"
  by (simp add: run_logged_def readers_eq Let_def)

lemma and_then_fst:
  "fst (and_then m f w) = (case fst (m w) of Inl e \<Rightarrow> Inl e | Inr v \<Rightarrow> fst (f v (snd (m w))))"
  by (simp add: and_then_def split: prod.splits sum.splits)

lemma and_then_snd:
  "snd (and_then m f w) = (case fst (m w) of Inl e \<Rightarrow> snd (m w) | Inr v \<Rightarrow> snd (f v (snd (m w))))"
  by (simp add: and_then_def split: prod.splits sum.splits)

lemma azure_context_query_result: "fst (azure_context_query x w) = query_result x w"
  unfolding azure_context_query_def and_then_fst run_logged_capture_result query_result_def Let_def
  by (simp split: option.splits sum.splits)

lemma azure_context_query_trace:
  "trace (snd (azure_context_query x w)) = trace (snd (run_logged x account_show None True True True OnError w))"
  unfolding azure_context_query_def and_then_snd
  by (simp split: option.splits sum.splits)

text \<open>
  Claim C3. With capture and \<open>echo="on_error"\<close>, \<open>run_logged\<close> writes nothing to the standard
  streams between the start of the process and its end; after the end it writes, exactly
  when the exit code is not zero, the whole stdout buffer to stdout and then the whole stderr
  buffer to stderr, whatever the order in which the lines arrived and whether or not a
  failure is raised afterwards. What the streams show is then the stdout text followed by the
  stderr text. (The record \<open>$ command\<close> goes to the logging system before the process starts.)
\<close>

theorem run_logged_on_error_replay:
  "(let w1 = w\<lparr>trace := trace w @ [Log (''$ '' @ join '' '' cmd)]\<rparr>;
        p = spawn x cmd cwd w1;
        after = (if exit_code p \<noteq> 0
                 then map (Emit Stdout) (stream_lines Stdout (lines_out p))
                      @ map (Emit Stderr) (stream_lines Stderr (lines_out p))
                 else [])
    in trace (snd (run_logged x cmd cwd True True check OnError w)) =
         trace w1 @ [Exec cmd cwd, Exited (exit_code p)] @ after
       \<and> shown after =
           (if exit_code p \<noteq> 0
            then concat (stream_lines Stdout (lines_out p)) @ concat (stream_lines Stderr (lines_out p))
            else []))"
  by (simp add: run_logged_capture_trace Let_def shown_append shown_emits)

theorem run_logged_on_error_replay_witness:
  "trace (snd (run_logged failing_tool [''tool''] None True True True OnError example_world)) =
     [Log ''$ tool'', Exec [''tool''] None, Exited 1, Emit Stdout (''A'' @ [LF]), Emit Stderr (''B'' @ [LF])]
   \<and> shown (trace (snd (run_logged failing_tool [''tool''] None True True True OnError example_world))) =
       ''A'' @ [LF] @ ''B'' @ [LF]"
  using run_logged_on_error_replay[of example_world "[''tool'']" failing_tool None True]
  by (simp add: Let_def failing_tool_def example_world_def stream_lines_def)

text \<open>
  Claim C7, as amended. \<open>azure_context\<close> looks the subscription up under
  \<open>AZURE_SUBSCRIPTION_ID\<close> and then \<open>ARM_SUBSCRIPTION_ID\<close>, and the tenant under
  \<open>AZURE_TENANT_ID\<close> and then \<open>ARM_TENANT_ID\<close>, an empty value counting as absent. When both
  lookups succeed it returns the two values and leaves the world as it is: no external call.
  This is the case whenever one of the two pairs is fully present. Otherwise it runs
  \<open>az account show --output json\<close> and returns the \<open>id\<close> and \<open>tenantId\<close> of the decoded
  response, or the failure of the command, of the parser or of the lookup.
\<close>

theorem azure_context_prefers_environment:
  "(let sub = py_or (environ w ''AZURE_SUBSCRIPTION_ID'') (environ w ''ARM_SUBSCRIPTION_ID'');
        tenant = py_or (environ w ''AZURE_TENANT_ID'') (environ w ''ARM_TENANT_ID'')
    in (if truthy_str sub \<and> truthy_str tenant
        then azure_context x w = (Inr \<lparr>subscription_id = JStr (the sub), tenant_id = JStr (the tenant)\<rparr>, w)
        else fst (azure_context x w) = query_result x w
             \<and> (\<exists>rest. trace (snd (azure_context x w)) =
                   trace w @ [Log ''$ az account show --output json'', Exec account_show None] @ rest))
       \<and> (if truthy_str (environ w ''AZURE_SUBSCRIPTION_ID'') \<and> truthy_str (environ w ''AZURE_TENANT_ID'')
             \<or> truthy_str (environ w ''ARM_SUBSCRIPTION_ID'') \<and> truthy_str (environ w ''ARM_TENANT_ID'')
           then truthy_str sub \<and> truthy_str tenant else True))"
proof -
  let ?sub = "py_or (environ w ''AZURE_SUBSCRIPTION_ID'') (environ w ''ARM_SUBSCRIPTION_ID'')"
  let ?tenant = "py_or (environ w ''AZURE_TENANT_ID'') (environ w ''ARM_TENANT_ID'')"
  have env: "azure_context x w = (Inr \<lparr>subscription_id = JStr (the ?sub), tenant_id = JStr (the ?tenant)\<rparr>, w)"
    if "truthy_str ?sub \<and> truthy_str ?tenant"
    using that by (auto simp: azure_context_def truthy_str_def Let_def split: option.splits)
  have q: "azure_context x w = azure_context_query x w" if "\<not> (truthy_str ?sub \<and> truthy_str ?tenant)"
    using that by (auto simp: azure_context_def truthy_str_def Let_def split: option.splits)
  have cmd: "join '' '' account_show = ''az account show --output json''"
    by (simp add: account_show_def)
  have t: "\<exists>rest. trace (snd (azure_context_query x w)) =
      trace w @ [Log ''$ az account show --output json'', Exec account_show None] @ rest"
    unfolding azure_context_query_trace run_logged_capture_trace Let_def cmd by simp
  have pairs: "truthy_str ?sub \<and> truthy_str ?tenant"
    if "truthy_str (environ w ''AZURE_SUBSCRIPTION_ID'') \<and> truthy_str (environ w ''AZURE_TENANT_ID'')
        \<or> truthy_str (environ w ''ARM_SUBSCRIPTION_ID'') \<and> truthy_str (environ w ''ARM_TENANT_ID'')"
    using that by (auto simp: py_or_def)
  show ?thesis
    unfolding Let_def using env q t pairs azure_context_query_result[of x w] by auto
qed

theorem azure_context_prefers_environment_witness:
  "azure_context identity_tool
       (env_of [(''ARM_SUBSCRIPTION_ID'', ''s-arm''), (''ARM_TENANT_ID'', ''t-arm'')]) =
     (Inr \<lparr>subscription_id = JStr ''s-arm'', tenant_id = JStr ''t-arm''\<rparr>,
      env_of [(''ARM_SUBSCRIPTION_ID'', ''s-arm''), (''ARM_TENANT_ID'', ''t-arm'')])
   \<and> fst (azure_context identity_tool (env_of [])) =
       Inr \<lparr>subscription_id = JStr ''sub-1'', tenant_id = JStr ''tenant-1''\<rparr>
   \<and> (\<exists>rest. trace (snd (azure_context identity_tool (env_of []))) =
         [Log ''$ az account show --output json'', Exec account_show None] @ rest)"
  using azure_context_prefers_environment[of "env_of [(''ARM_SUBSCRIPTION_ID'', ''s-arm''), (''ARM_TENANT_ID'', ''t-arm'')]" identity_tool]
    azure_context_prefers_environment[of "env_of []" identity_tool]
  by (simp add: Let_def env_of_def py_or_def truthy_str_def query_result_def identity_tool_def
      stream_lines_def subscript_def)

text \<open>
  The claim as the specification states it fails: with the subscription under its \<open>AZURE_\<close>
  name and the tenant under its \<open>ARM_\<close> name, neither pair is fully present, and yet the
  values of the environment are returned and no command is run.
\<close>

theorem azure_context_mixed_pairs_counterexample:
  "\<not> (truthy_str (environ (env_of [(''AZURE_SUBSCRIPTION_ID'', ''s''), (''ARM_TENANT_ID'', ''t'')]) ''AZURE_SUBSCRIPTION_ID'')
        \<and> truthy_str (environ (env_of [(''AZURE_SUBSCRIPTION_ID'', ''s''), (''ARM_TENANT_ID'', ''t'')]) ''AZURE_TENANT_ID''))
   \<and> \<not> (truthy_str (environ (env_of [(''AZURE_SUBSCRIPTION_ID'', ''s''), (''ARM_TENANT_ID'', ''t'')]) ''ARM_SUBSCRIPTION_ID'')
        \<and> truthy_str (environ (env_of [(''AZURE_SUBSCRIPTION_ID'', ''s''), (''ARM_TENANT_ID'', ''t'')]) ''ARM_TENANT_ID''))
   \<and> azure_context identity_tool (env_of [(''AZURE_SUBSCRIPTION_ID'', ''s''), (''ARM_TENANT_ID'', ''t'')]) =
       (Inr \<lparr>subscription_id = JStr ''s'', tenant_id = JStr ''t''\<rparr>,
        env_of [(''AZURE_SUBSCRIPTION_ID'', ''s''), (''ARM_TENANT_ID'', ''t'')])
   \<and> trace (snd (azure_context identity_tool (env_of [(''AZURE_SUBSCRIPTION_ID'', ''s''), (''ARM_TENANT_ID'', ''t'')]))) = []"
  by (simp add: azure_context_def env_of_def py_or_def truthy_str_def Let_def)

text \<open>
  Claim C8, as amended. \<open>_registry_login_server\<close> takes the first value that is present and
  not empty among the override, \<open>AZ_READER_REGISTRY_LOGIN_SERVER\<close>, \<open>REGISTRY_LOGIN_SERVER\<close>
  and the recorded value of the variable file (as a string, stripped). It fails with
  \<open>RegistryEndpointRequired\<close> when there is no such value, and also when the value taken holds
  a \<open><\<close> or is blank; otherwise it returns the value taken.
\<close>

theorem registry_login_server_resolution:
  "(let recorded = strip (py_str x (let v = dict_get tfvars_data ''registry_login_server'' (JStr [])
                                    in if truthy v then v else JStr []));
        chosen = first_nonempty [override, environ w ''AZ_READER_REGISTRY_LOGIN_SERVER'',
                                 environ w ''REGISTRY_LOGIN_SERVER'', Some recorded]
    in registry_login_server x override tfvars_data w =
         (case chosen of
            None \<Rightarrow> Inl RegistryEndpointRequired
          | Some v \<Rightarrow> if CHR ''<'' \<in> set v \<or> strip v = [] then Inl RegistryEndpointRequired else Inr v))"
  by (auto simp: registry_login_server_def first_nonempty_def py_or_def truthy_str_def Let_def
      split: option.splits)

theorem registry_login_server_resolution_witness:
  "registry_login_server identity_tool None [(''registry_login_server'', JStr '' old.azurecr.io '')]
       (env_of [(''REGISTRY_LOGIN_SERVER'', ''acr.azurecr.io'')]) = Inr ''acr.azurecr.io''
   \<and> registry_login_server identity_tool None [(''registry_login_server'', JStr '' old.azurecr.io '')]
       (env_of []) = Inr ''old.azurecr.io''
   \<and> registry_login_server identity_tool None [] (env_of []) = Inl RegistryEndpointRequired"
  using registry_login_server_resolution[of identity_tool "[(''registry_login_server'', JStr '' old.azurecr.io '')]"
      None "env_of [(''REGISTRY_LOGIN_SERVER'', ''acr.azurecr.io'')]"]
    registry_login_server_resolution[of identity_tool "[(''registry_login_server'', JStr '' old.azurecr.io '')]"
      None "env_of []"]
    registry_login_server_resolution[of identity_tool "[]" None "env_of []"]
  by (simp add: Let_def first_nonempty_def truthy_str_def env_of_def dict_get_def truthy_def py_str_def
      strip_def lstrip_def rstrip_def is_space_def)

text \<open>
  The claim as the specification states it fails: an override that still holds a placeholder
  is present and is refused; a blank override is refused although an environment variable
  holds an endpoint.
\<close>

theorem registry_login_server_placeholder_counterexample:
  "registry_login_server identity_tool (Some ''<registry>.azurecr.io'') [] (env_of []) = Inl RegistryEndpointRequired
   \<and> registry_login_server identity_tool (Some '' '') [] (env_of [(''REGISTRY_LOGIN_SERVER'', ''acr.azurecr.io'')]) =
       Inl RegistryEndpointRequired"
  by (simp add: registry_login_server_def py_or_def truthy_str_def env_of_def dict_get_def truthy_def
      py_str_def strip_def lstrip_def rstrip_def is_space_def Let_def)

text \<open>
  Claim C6. When the local state file of the bootstrap stack does not exist,
  \<open>load_bootstrap_state\<close>, the first step of the remote-backend initialisation of the workload
  stack, fails with \<open>UpstreamNotBootstrapped\<close> and leaves the world as it is: no command is
  run, no directory is made, no environment variable is set. The second half of
  \<open>deploy_workload\<close>, which starts with this step, fails in the same way before any
  \<open>terraform init\<close>.
\<close>

theorem bootstrap_state_guard:
  assumes "\<not> path_exists w (bootstrap_state_path ps env)"
  shows "load_bootstrap_state x env ps ctx w =
           (Inl (UpstreamNotBootstrapped (bootstrap_state_path ps env)), w)
         \<and> deploy_workload_backend x env extra ctx ps tfvars w =
           (Inl (UpstreamNotBootstrapped (bootstrap_state_path ps env)), w)"
  using assms by (simp add: load_bootstrap_state_def deploy_workload_backend_def and_then_def)

theorem bootstrap_state_guard_witness:
  "\<not> path_exists example_world (bootstrap_state_path (resolve_paths identity_tool) ''dev'')
   \<and> load_bootstrap_state identity_tool ''dev'' (resolve_paths identity_tool)
        \<lparr>subscription_id = JStr ''s'', tenant_id = JStr ''t''\<rparr> example_world =
       (Inl (UpstreamNotBootstrapped
          [''repo'', ''infra'', ''terraform'', ''stacks'', ''00-bootstrap'', ''.state'', ''dev'', ''bootstrap.tfstate'']),
        example_world)
   \<and> trace (snd (deploy_workload_backend identity_tool ''dev'' [] \<lparr>subscription_id = JStr ''s'', tenant_id = JStr ''t''\<rparr>
        (resolve_paths identity_tool) [''dev.tfvars''] example_world)) = []"
proof -
  have h: "\<not> path_exists example_world (bootstrap_state_path (resolve_paths identity_tool) ''dev'')"
    by (simp add: path_exists_def example_world_def)
  from bootstrap_state_guard[OF h, of identity_tool "\<lparr>subscription_id = JStr ''s'', tenant_id = JStr ''t''\<rparr>" "[]" "[''dev.tfvars'']"] h
  show ?thesis
    by (simp add: bootstrap_state_path_def resolve_paths_def identity_tool_def example_world_def)
qed

section \<open>The workload deployment: proofs\<close>


lemma and_then_Inl:
  "and_then m f w = (Inl e, w'') \<Longrightarrow>
     m w = (Inl e, w'') \<or> (\<exists>v w'. m w = (Inr v, w') \<and> f v w' = (Inl e, w''))"
  by (auto simp: and_then_def split: prod.splits sum.splits)

lemma appendsI: "(\<And>w. \<exists>evs. trace (snd (m w)) = trace w @ evs) \<Longrightarrow> appends m"
  by (simp add: appends_def)

lemma appendsD: "appends m \<Longrightarrow> m w = (r, w') \<Longrightarrow> \<exists>evs. trace w' = trace w @ evs"
  by (metis appends_def snd_conv)

lemma appends_and_then: "appends m \<Longrightarrow> (\<And>v. appends (f v)) \<Longrightarrow> appends (and_then m f)"
proof (rule appendsI)
  fix w
  assume m: "appends m" and f: "\<And>v. appends (f v)"
  obtain r w' where mw: "m w = (r, w')" by (cases "m w")
  from appendsD[OF m mw] obtain evs where e: "trace w' = trace w @ evs" by blast
  show "\<exists>evs. trace (snd (and_then m f w)) = trace w @ evs"
  proof (cases r)
    case (Inl err)
    then show ?thesis using mw e by (simp add: and_then_def)
  next
    case (Inr v)
    obtain r2 w2 where fw: "f v w' = (r2, w2)" by (cases "f v w'")
    from appendsD[OF f fw] obtain evs2 where "trace w2 = trace w' @ evs2" by blast
    then show ?thesis using mw Inr fw e by (simp add: and_then_def)
  qed
qed


lemma appends_ok: "appends (ok v)" and appends_fail: "appends (fail e)"
  by (simp_all add: appends_def ok_def fail_def)



lemma appends_record_events: "appends (record_events evs)"
  by (simp add: appends_def record_events_def)


lemma appends_run_logged: "appends (run_logged x cmd cwd capture text check echo)"
  by (rule appendsI) (simp add: run_logged_def Let_def split: prod.splits)


lemma appends_read_text: "appends (read_text p)"
  by (rule appendsI) (simp add: read_text_def split: option.splits)


lemma appends_write_text: "appends (write_text p text)"
  by (rule appendsI) (simp add: write_text_def)


lemma appends_mkdir_parents: "appends (mkdir_parents p)"
  by (rule appendsI) (simp add: mkdir_parents_def)


lemma appends_setenv: "appends (setenv k v)"
  by (rule appendsI) (simp add: setenv_def split: json.splits)


lemma appends_ensure: "appends (ensure x bs)"
  by (induction bs) (simp_all add: appends_ok appends_fail)


lemma appends_at: "appends m \<Longrightarrow> \<exists>evs. trace (snd (m w)) = trace w @ evs"
  by (simp add: appends_def)


lemma appends_world_if:
  "appends m \<Longrightarrow> appends n \<Longrightarrow> appends (\<lambda>w. if c w then m w else n w)"
  by (simp add: appends_def)


lemma appends_log_info: "appends (log_info msg)" and appends_print_line: "appends (print_line s)"
  by (simp_all add: log_info_def print_line_def appends_record_events)


lemmas appends_rules = appends_and_then appends_ok appends_fail appends_record_events appends_run_logged
  appends_read_text appends_write_text appends_mkdir_parents appends_setenv appends_ensure
  appends_world_if appends_log_info appends_print_line








lemma appends_ensure_tfvars: "appends (ensure_tfvars x stack_dir env sub tenant)"
proof (rule appendsI)
  fix w
  show "\<exists>evs. trace (snd (ensure_tfvars x stack_dir env sub tenant w)) = trace w @ evs"
    unfolding ensure_tfvars_def Let_def
    by (rule appends_at) (auto intro!: appends_rules split: option.splits)
qed


lemma appends_update_tfvars: "appends (update_tfvars p ups)"
  unfolding update_tfvars_def by (intro appends_rules)












lemma print_line_result:
  "print_line s w = (r, w') \<Longrightarrow> r = Inr () \<and> trace w' = trace w @ [Emit Stdout (s @ [LF])]"
  by (auto simp: print_line_def record_events_def)

lemma write_text_result:
  "write_text p text w = (Inr u, w') \<Longrightarrow> trace w' = trace w @ [WriteText p text]"
  by (auto simp: write_text_def split: if_splits)

lemma read_text_world: "read_text p w = (r, w') \<Longrightarrow> w' = w"
  by (auto simp: read_text_def split: option.splits)

















lemma appends_registry_step:
  "appends (\<lambda>w. (registry_login_server x ov (safe_load_tfvars x t w) w, w))"
  by (simp add: appends_def)




lemma appends_const_step: "appends (\<lambda>w. ok (g w) w)"
  by (simp add: appends_def ok_def)



lemma appends_template_step:
  "appends (\<lambda>w. if \<not> path_exists w t then fail (MissingBuildTemplate t) w else ok () w)"
  by (simp add: appends_def ok_def fail_def)




lemma appends_tfvars_choice:
  "appends (case tfvars_path of None \<Rightarrow> ensure_tfvars x d env s t | Some p \<Rightarrow> ok p)"
  by (simp add: appends_rules appends_ensure_tfvars split: option.splits)










end
